theory Spec2Isabelle
  imports Complex_Main "HOL-Library.Multiset" "HOL-Library.Log_Nat"
begin

section \<open>Process records and the exceptions of the module\<close>

text \<open>
  Both source files (\<^verbatim>\<open>fcfs_scheduler.py\<close> and
  \<^verbatim>\<open>schedulers/sjf_scheduler_non_preemptive.py\<close>) define the same class
  \<^verbatim>\<open>Process\<close> and the same class \<^verbatim>\<open>Exceptions\<close>; they are modelled once.
  Python integers are unbounded, hence \<open>int\<close>. The two exceptions that carry a process
  keep its \<^verbatim>\<open>p_id\<close>, which is all their message shows. \<open>IndexError\<close>,
  \<open>ValueError\<close>, \<open>ZeroDivisionError\<close> and \<open>OverflowError\<close> are the built-in
  exceptions that \<^verbatim>\<open>list.pop\<close>, \<^verbatim>\<open>min\<close>/\<^verbatim>\<open>list.remove\<close> and \<^verbatim>\<open>/\<close>
  raise.
\<close>

datatype error =
    InvalidCompletionTimeError
  | MissingTurnaroundTimeError string
  | MissingWaitingTimeError string
  | IndexError
  | ValueError
  | ZeroDivisionError
  | OverflowError

record process =
  p_id :: string
  arrival_t :: int
  burst_t :: int
  completion_t :: "int option"
  turnaround_t :: "int option"
  waiting_t :: "int option"

text \<open>
  A method that mutates its object and may raise returns \<open>Inr\<close> of the object after the
  call, or \<open>Inl\<close> of the exception together with the object as the raise leaves it.
\<close>

type_synonym 'a result = "(error \<times> 'a) + 'a"

definition Process_init :: "string \<Rightarrow> int \<Rightarrow> int \<Rightarrow> process" where
  "Process_init pid arrival burst =
     \<lparr>p_id = pid, arrival_t = arrival, burst_t = burst,
      completion_t = None, turnaround_t = None, waiting_t = None\<rparr>"

definition set_completion_t :: "process \<Rightarrow> int \<Rightarrow> process result" where
  "set_completion_t self t =
     (if t < burst_t self then Inl (InvalidCompletionTimeError, self)
      else Inr (self\<lparr>completion_t := Some t\<rparr>))"

definition set_turnaround_t :: "process \<Rightarrow> process" where
  "set_turnaround_t self =
     (case completion_t self of
        None \<Rightarrow> self
      | Some c \<Rightarrow> self\<lparr>turnaround_t := Some (c - arrival_t self)\<rparr>)"

definition set_waiting_t :: "process \<Rightarrow> process" where
  "set_waiting_t self =
     (case turnaround_t self of
        None \<Rightarrow> self
      | Some t \<Rightarrow> self\<lparr>waiting_t := Some (t - burst_t self)\<rparr>)"

section \<open>Scheduler state\<close>

text \<open>
  A scheduler holds references to \<^verbatim>\<open>Process\<close> objects and mutates the objects in
  place, so the same object may be reachable from several places. A reference is an
  address, and \<open>store\<close> maps each address to the object's current fields. Two references
  are equal exactly when they are the same object (the class defines no
  \<^verbatim>\<open>__eq__\<close>), which is what \<^verbatim>\<open>list.remove\<close> compares.
\<close>

type_synonym ref = nat

record state =
  running :: "ref option"
  ready_queue :: "ref list"
  history :: "ref list"
  total_t :: int
  store :: "ref \<Rightarrow> process"

definition Scheduler_init :: "(ref \<Rightarrow> process) \<Rightarrow> state" where
  "Scheduler_init st =
     \<lparr>running = None, ready_queue = [], history = [], total_t = 0, store = st\<rparr>"

subsection \<open>Built-in list operations as the engines use them\<close>

text \<open>\<^verbatim>\<open>xs.pop(0)\<close>: \<open>None\<close> stands for the \<open>IndexError\<close> on an empty list.\<close>

definition list_pop0 :: "'a list \<Rightarrow> ('a \<times> 'a list) option" where
  "list_pop0 xs = (case xs of [] \<Rightarrow> None | x # rest \<Rightarrow> Some (x, rest))"

text \<open>
  \<^verbatim>\<open>min(iterable, key=f)\<close>: \<open>None\<close> stands for the \<open>ValueError\<close> on an empty
  iterable; otherwise the candidate is replaced only by an item whose key is strictly
  smaller, so the first minimal item is returned.
\<close>

definition py_min_key :: "('a \<Rightarrow> int) \<Rightarrow> 'a list \<Rightarrow> 'a option" where
  "py_min_key f xs =
     (case xs of
        [] \<Rightarrow> None
      | x # rest \<Rightarrow> Some (foldl (\<lambda>m y. if f y < f m then y else m) x rest))"

text \<open>
  \<^verbatim>\<open>xs.remove(x)\<close>: removes the first item equal to \<open>x\<close>; \<open>None\<close> stands for the
  \<open>ValueError\<close> when there is none.
\<close>

definition list_remove :: "'a list \<Rightarrow> 'a \<Rightarrow> 'a list option" where
  "list_remove xs x = (if x \<in> set xs then Some (remove1 x xs) else None)"

subsection \<open>The step shared by both engines\<close>

text \<open>
  \<^verbatim>\<open>Scheduler.update_running_process\<close> is the same in both files. The clock is
  advanced before \<^verbatim>\<open>set_completion_t\<close> may raise.
\<close>

definition update_running_process :: "state \<Rightarrow> state result" where
  "update_running_process s =
     (case running s of
        None \<Rightarrow> Inr s
      | Some r \<Rightarrow>
          (let s1 = s\<lparr>total_t := total_t s + burst_t (store s r)\<rparr> in
           case set_completion_t (store s1 r) (total_t s1) of
             Inl (e, p) \<Rightarrow> Inl (e, s1\<lparr>store := (store s1)(r := p)\<rparr>)
           | Inr p \<Rightarrow>
               Inr (s1\<lparr>store := (store s1)(r := set_waiting_t (set_turnaround_t p))\<rparr>)))"

section \<open>The FCFS engine\<close>

definition fcfs_add_process :: "state \<Rightarrow> ref \<Rightarrow> state" where
  "fcfs_add_process s p =
     (case running s of
        None \<Rightarrow> s\<lparr>running := Some p\<rparr>
      | Some _ \<Rightarrow> s\<lparr>ready_queue := ready_queue s @ [p]\<rparr>)"

text \<open>
  \<open>fcfs_next\<close> is the \<^verbatim>\<open>try\<close> statement at the end of the loop body: the front of
  the queue becomes the running process, and the \<open>IndexError\<close> of \<^verbatim>\<open>pop(0)\<close> on an
  empty queue is caught and sets \<open>running\<close> to \<open>None\<close>. The loop is
  \<^verbatim>\<open>while self.running\<close>: a \<^verbatim>\<open>Process\<close> object is always true (the class defines
  neither \<^verbatim>\<open>__bool__\<close> nor \<^verbatim>\<open>__len__\<close>), so it runs until \<open>running\<close> is
  \<open>None\<close>. An exception of the run step leaves the loop with the scheduler as it is
  at the raise.
\<close>

definition fcfs_next :: "state \<Rightarrow> state" where
  "fcfs_next s =
     (case list_pop0 (ready_queue s) of
        Some (q, rest) \<Rightarrow> s\<lparr>running := Some q, ready_queue := rest\<rparr>
      | None \<Rightarrow> s\<lparr>running := None\<rparr>)"

function fcfs_execute :: "state \<Rightarrow> state result" where
  "fcfs_execute s =
     (case running s of
        None \<Rightarrow> Inr s
      | Some r \<Rightarrow>
          (case update_running_process s of
             Inl err \<Rightarrow> Inl err
           | Inr s1 \<Rightarrow>
               fcfs_execute (fcfs_next (s1\<lparr>history := history s1 @ [r]\<rparr>))))"
  by pat_completeness auto

termination
proof (relation "measure (\<lambda>s. length (ready_queue s) + (case running s of None \<Rightarrow> 0 | Some _ \<Rightarrow> 1))")
  show "wf (measure (\<lambda>s. length (ready_queue s) + (case running s of None \<Rightarrow> 0 | Some _ \<Rightarrow> 1)))"
    by simp
next
  fix s :: state and r s1
  assume run: "running s = Some r" and upd: "update_running_process s = Inr s1"
  from upd run have q: "ready_queue s1 = ready_queue s"
    by (auto simp: update_running_process_def set_completion_t_def Let_def split: if_splits)
  show "(fcfs_next (s1\<lparr>history := history s1 @ [r]\<rparr>), s)
        \<in> measure (\<lambda>s. length (ready_queue s) + (case running s of None \<Rightarrow> 0 | Some _ \<Rightarrow> 1))"
    using q run by (cases "ready_queue s") (simp_all add: fcfs_next_def list_pop0_def)
qed

declare fcfs_execute.simps [simp del]

section \<open>The SJF non-preemptive engine\<close>

definition sjf_add_process :: "state \<Rightarrow> ref \<Rightarrow> state" where
  "sjf_add_process s p = s\<lparr>ready_queue := ready_queue s @ [p]\<rparr>"

text \<open>
  \<^verbatim>\<open>list.sort(key=...)\<close> is a stable sort, as is \<open>sort_key\<close>. The
  \<open>IndexError\<close> of \<^verbatim>\<open>pop(0)\<close> is not caught, neither here nor in
  \<^verbatim>\<open>execute\<close>; it is raised after the (sorted) queue has been stored.
\<close>

definition sjf_setup :: "state \<Rightarrow> state result" where
  "sjf_setup s =
     (let s1 = s\<lparr>ready_queue := sort_key (\<lambda>p. arrival_t (store s p)) (ready_queue s)\<rparr> in
      case list_pop0 (ready_queue s1) of
        None \<Rightarrow> Inl (IndexError, s1)
      | Some (q, rest) \<Rightarrow> Inr (s1\<lparr>running := Some q, ready_queue := rest\<rparr>))"

text \<open>
  \<^verbatim>\<open>running\<close> is assigned before \<^verbatim>\<open>remove\<close> is called; a \<open>ValueError\<close> of
  either call ends in the handler, which sets \<^verbatim>\<open>running\<close> to \<open>None\<close>.
\<close>

definition set_highest_priority_process :: "state \<Rightarrow> state" where
  "set_highest_priority_process s =
     (case py_min_key (\<lambda>p. burst_t (store s p))
             (filter (\<lambda>p. arrival_t (store s p) \<le> total_t s) (ready_queue s)) of
        None \<Rightarrow> s\<lparr>running := None\<rparr>
      | Some m \<Rightarrow>
          (case list_remove (ready_queue s) m of
             None \<Rightarrow> s\<lparr>running := None\<rparr>
           | Some rest \<Rightarrow> s\<lparr>running := Some m, ready_queue := rest\<rparr>))"

function sjf_loop :: "state \<Rightarrow> state result" where
  "sjf_loop s =
     (case running s of
        None \<Rightarrow> Inr s
      | Some r \<Rightarrow>
          (case update_running_process s of
             Inl err \<Rightarrow> Inl err
           | Inr s1 \<Rightarrow>
               sjf_loop (set_highest_priority_process (s1\<lparr>history := history s1 @ [r]\<rparr>))))"
  by pat_completeness auto
termination
proof (relation "measure (\<lambda>s. length (ready_queue s) + (case running s of None \<Rightarrow> 0 | Some _ \<Rightarrow> 1))")
  show "wf (measure (\<lambda>s. length (ready_queue s) + (case running s of None \<Rightarrow> 0 | Some _ \<Rightarrow> 1)))"
    by simp
next
  fix s :: state and r s1
  assume run: "running s = Some r" and upd: "update_running_process s = Inr s1"
  from upd run have q: "ready_queue s1 = ready_queue s"
    by (auto simp: update_running_process_def set_completion_t_def Let_def split: if_splits)
  show "(set_highest_priority_process (s1\<lparr>history := history s1 @ [r]\<rparr>), s)
        \<in> measure (\<lambda>s. length (ready_queue s) + (case running s of None \<Rightarrow> 0 | Some _ \<Rightarrow> 1))"
    using q run
    by (auto simp: set_highest_priority_process_def list_remove_def length_remove1
             split: option.splits if_splits dest: length_pos_if_in_set)
qed

declare sjf_loop.simps [simp del]

definition sjf_execute :: "state \<Rightarrow> state result" where
  "sjf_execute s = (case sjf_setup s of Inl err \<Rightarrow> Inl err | Inr s1 \<Rightarrow> sjf_loop s1)"

section \<open>Metrics\<close>

subsection \<open>True division of two integers\<close>

text \<open>
  \<^verbatim>\<open>a / b\<close> on two Python ints returns a float, a binary64 number. A float is modelled
  by its sign bit and its magnitude, a rational; the division produces neither an
  infinity nor a NaN.
\<close>

datatype pyfloat = PyFloat (negative: bool) (magnitude: rat)

definition float_value :: "pyfloat \<Rightarrow> rat" where
  "float_value x = (if negative x then - magnitude x else magnitude x)"

text \<open>The integer nearest to \<open>n / d\<close> for \<open>d > 0\<close>, a tie going to the even one.\<close>

definition round_half_even :: "int \<Rightarrow> int \<Rightarrow> int" where
  "round_half_even n d =
     (let q = n div d; r = n mod d in
      if 2 * r < d then q else if d < 2 * r then q + 1
      else if even q then q else q + 1)"

text \<open>
  The exponent \<open>e\<close> with \<open>2\<^sup>e \<le> n / d < 2\<^sup>e\<^sup>+\<^sup>1\<close> for positive \<open>n\<close> and \<open>d\<close>: the
  difference of the bit lengths, or one less.
\<close>

definition floor_log2 :: "int \<Rightarrow> int \<Rightarrow> int" where
  "floor_log2 n d =
     (let c = bitlen n - bitlen d in
      if (if 0 \<le> c then d * 2 ^ nat c \<le> n else d \<le> n * 2 ^ nat (- c)) then c else c - 1)"

text \<open>
  Rounding \<open>n / d\<close> (both positive) to 53 significant bits, or to a multiple of
  \<open>2\<^sup>-\<^sup>1\<^sup>0\<^sup>7\<^sup>4\<close> below the normal range: the exponent \<open>k\<close> of the last place and the
  integer \<open>m\<close> with \<open>m * 2\<^sup>k\<close> the rounded quotient.
\<close>

definition binary64_round :: "int \<Rightarrow> int \<Rightarrow> int \<times> int" where
  "binary64_round n d =
     (let k = max (floor_log2 n d) (- 1022) - 52
      in (if 0 \<le> k then round_half_even n (d * 2 ^ nat k)
          else round_half_even (n * 2 ^ nat (- k)) d, k))"

text \<open>
  True division as CPython computes it: \<open>ZeroDivisionError\<close> for a zero divisor; the
  sign bit is set when exactly one operand is negative (so \<^verbatim>\<open>0 / -5\<close> is \<^verbatim>\<open>-0.0\<close>);
  the magnitude is the exact quotient rounded to the nearest float, ties to even;
  \<open>OverflowError\<close> when the rounded magnitude reaches \<open>2\<^sup>1\<^sup>0\<^sup>2\<^sup>4\<close>, that is when the
  last place is beyond \<open>2\<^sup>9\<^sup>7\<^sup>1\<close> or is \<open>2\<^sup>9\<^sup>7\<^sup>1\<close> with the mantissa rounded up to
  \<open>2\<^sup>5\<^sup>3\<close>.
\<close>

definition py_truediv :: "int \<Rightarrow> int \<Rightarrow> error + pyfloat" where
  "py_truediv a b =
     (if b = 0 then Inl ZeroDivisionError
      else if a = 0 then Inr (PyFloat (b < 0) 0)
      else
        (case binary64_round \<bar>a\<bar> \<bar>b\<bar> of
           (m, k) \<Rightarrow>
             if 971 < k \<or> (k = 971 \<and> 2 ^ 53 \<le> m) then Inl OverflowError
             else Inr (PyFloat ((a < 0) \<noteq> (b < 0)) (of_int m * 2 powi k))))"

subsection \<open>The averages\<close>

text \<open>
  \<^verbatim>\<open>calc_avg_turnaround_t\<close> and \<^verbatim>\<open>calc_avg_waiting_t\<close> are the same in both
  files. The \<^verbatim>\<open>for\<close> loop is the recursion over \<open>history\<close> with the running total
  \<open>tot\<close>; the functions read the scheduler and change nothing.
\<close>

fun sum_turnaround_t :: "(ref \<Rightarrow> process) \<Rightarrow> int \<Rightarrow> ref list \<Rightarrow> error + int" where
  "sum_turnaround_t st tot [] = Inr tot"
| "sum_turnaround_t st tot (p # ps) =
     (case turnaround_t (st p) of
        None \<Rightarrow> Inl (MissingTurnaroundTimeError (p_id (st p)))
      | Some t \<Rightarrow> sum_turnaround_t st (tot + t) ps)"

definition calc_avg_turnaround_t :: "state \<Rightarrow> error + pyfloat" where
  "calc_avg_turnaround_t s =
     (case sum_turnaround_t (store s) 0 (history s) of
        Inl err \<Rightarrow> Inl err
      | Inr tot \<Rightarrow> py_truediv tot (int (length (history s))))"

fun sum_waiting_t :: "(ref \<Rightarrow> process) \<Rightarrow> int \<Rightarrow> ref list \<Rightarrow> error + int" where
  "sum_waiting_t st tot [] = Inr tot"
| "sum_waiting_t st tot (p # ps) =
     (case waiting_t (st p) of
        None \<Rightarrow> Inl (MissingWaitingTimeError (p_id (st p)))
      | Some w \<Rightarrow> sum_waiting_t st (tot + w) ps)"

definition calc_avg_waiting_t :: "state \<Rightarrow> error + pyfloat" where
  "calc_avg_waiting_t s =
     (case sum_waiting_t (store s) 0 (history s) of
        Inl err \<Rightarrow> Inl err
      | Inr tot \<Rightarrow> py_truediv tot (int (length (history s))))"

section \<open>Runs and what is read off them\<close>

text \<open>A fresh scheduler to which the processes \<open>ps\<close> are admitted in this order.\<close>

definition fcfs_admit :: "(ref \<Rightarrow> process) \<Rightarrow> ref list \<Rightarrow> state" where
  "fcfs_admit st ps = foldl fcfs_add_process (Scheduler_init st) ps"

definition sjf_admit :: "(ref \<Rightarrow> process) \<Rightarrow> ref list \<Rightarrow> state" where
  "sjf_admit st ps = foldl sjf_add_process (Scheduler_init st) ps"

text \<open>The exception of a run, or what \<open>f\<close> reads in the scheduler it returns.\<close>

definition outcome :: "(state \<Rightarrow> 'a) \<Rightarrow> state result \<Rightarrow> error + 'a" where
  "outcome f res = (case res of Inl (e, _) \<Rightarrow> Inl e | Inr s \<Rightarrow> Inr (f s))"

definition history_ids :: "state \<Rightarrow> string list" where
  "history_ids s = map (\<lambda>p. p_id (store s p)) (history s)"

definition history_completion_ts :: "state \<Rightarrow> int option list" where
  "history_completion_ts s = map (\<lambda>p. completion_t (store s p)) (history s)"

definition history_turnaround_ts :: "state \<Rightarrow> int option list" where
  "history_turnaround_ts s = map (\<lambda>p. turnaround_t (store s p)) (history s)"

definition history_waiting_ts :: "state \<Rightarrow> int option list" where
  "history_waiting_ts s = map (\<lambda>p. waiting_t (store s p)) (history s)"

text \<open>
  The three timing fields of a finished process: all set, the completion time at least
  the burst time, and the two derived fields as the glossary defines them.
\<close>

definition timings_ok :: "process \<Rightarrow> bool" where
  "timings_ok p =
     (case (completion_t p, turnaround_t p, waiting_t p) of
        (Some c, Some t, Some w) \<Rightarrow>
           burst_t p \<le> c \<and> t = c - arrival_t p \<and> w = t - burst_t p
      | _ \<Rightarrow> False)"

text \<open>A process is eligible when it has arrived by the current clock.\<close>

definition arrived :: "state \<Rightarrow> ref \<Rightarrow> bool" where
  "arrived s p = (arrival_t (store s p) \<le> total_t s)"

text \<open>
  The processes admitted and not yet appended to \<open>history\<close> that an engine still
  looks at: the running one, then the queue.
\<close>

definition pending :: "state \<Rightarrow> ref list" where
  "pending s = (case running s of None \<Rightarrow> [] | Some r \<Rightarrow> r # ready_queue s)"

text \<open>The fields of a process after a run step has completed it at clock value \<open>c\<close>.\<close>

definition finished :: "process \<Rightarrow> int \<Rightarrow> process" where
  "finished p c = p\<lparr>completion_t := Some c, turnaround_t := Some (c - arrival_t p),
                    waiting_t := Some (c - arrival_t p - burst_t p)\<rparr>"

subsection \<open>Concrete process sets\<close>

text \<open>The processes of the \<^verbatim>\<open>__main__\<close> block of \<^verbatim>\<open>fcfs_scheduler.py\<close>.\<close>

definition fcfs_main_store :: "ref \<Rightarrow> process" where
  "fcfs_main_store =
     (\<lambda>_. Process_init [] 0 0)
       (0 := Process_init ''P0'' 0 5, 1 := Process_init ''P1'' 1 3,
        2 := Process_init ''P2'' 2 8, 3 := Process_init ''P3'' 3 6)"

text \<open>The same processes with other arrival times.\<close>

definition fcfs_other_arrivals_store :: "ref \<Rightarrow> process" where
  "fcfs_other_arrivals_store =
     (\<lambda>_. Process_init [] 0 0)
       (0 := Process_init ''P0'' 9 5, 1 := Process_init ''P1'' 0 3,
        2 := Process_init ''P2'' 4 8, 3 := Process_init ''P3'' 1 6)"

text \<open>The processes of the \<^verbatim>\<open>__main__\<close> block of the SJF file.\<close>

definition sjf_main_store :: "ref \<Rightarrow> process" where
  "sjf_main_store =
     (\<lambda>_. Process_init [] 0 0)
       (1 := Process_init ''P1'' 2 6, 2 := Process_init ''P2'' 5 2,
        3 := Process_init ''P3'' 1 8, 4 := Process_init ''P4'' 0 3,
        5 := Process_init ''P5'' 4 4)"

text \<open>Two processes with a gap between the end of the first and the arrival of the second.\<close>

definition gap_store :: "ref \<Rightarrow> process" where
  "gap_store =
     (\<lambda>_. Process_init [] 0 0)
       (0 := Process_init ''A'' 0 1, 1 := Process_init ''B'' 5 1)"


text \<open>The processes not yet in \<open>history\<close>, whether or not one of them is running.\<close>

definition not_run :: "state \<Rightarrow> ref list" where
  "not_run s = (case running s of None \<Rightarrow> [] | Some r \<Rightarrow> [r]) @ ready_queue s"

text \<open>
  Two states just before a selection of the SJF engine: the \<^verbatim>\<open>__main__\<close> scenario
  when P4 has ended at time 3, and the two processes with a gap when A has ended.
\<close>

definition sjf_select_state :: state where
  "sjf_select_state =
     \<lparr>running = Some 4, ready_queue = [3, 1, 5, 2], history = [4], total_t = 3,
      store = sjf_main_store\<rparr>"

definition gap_select_state :: state where
  "gap_select_state =
     \<lparr>running = Some 0, ready_queue = [1], history = [0], total_t = 1, store = gap_store\<rparr>"

text \<open>The number of processes in \<open>history\<close>.\<close>

definition history_length :: "state \<Rightarrow> nat" where
  "history_length s = length (history s)"

text \<open>
  A scheduler whose history holds a finished process and one that was never run, as a
  caller could build it.
\<close>

definition metrics_missing_state :: state where
  "metrics_missing_state =
     \<lparr>running = None, ready_queue = [], history = [0, 1], total_t = 5,
      store = fcfs_main_store(0 := finished (Process_init ''P0'' 0 5) 5)\<rparr>"

subsection \<open>Binary64 numbers\<close>

text \<open>
  The finite binary64 numbers: a mantissa below \<open>2\<^sup>5\<^sup>3\<close> in magnitude times a power of
  two with exponent from \<open>-1074\<close> to \<open>971\<close>.
\<close>

definition binary64 :: "rat \<Rightarrow> bool" where
  "binary64 x \<longleftrightarrow>
     (\<exists>m k. \<bar>m\<bar> < 2 ^ 53 \<and> - 1074 \<le> k \<and> k \<le> 971 \<and> x = of_int m * 2 powi k)"

text \<open>
  \<open>v\<close> is \<open>q\<close> rounded to binary64, ties to even: \<open>v\<close> is a binary64 number, no
  binary64 number is nearer to \<open>q\<close>, and when another one is as near, \<open>v\<close> is the even
  multiple of the distance between the two.
\<close>

definition nearest_binary64 :: "rat \<Rightarrow> rat \<Rightarrow> bool" where
  "nearest_binary64 q v \<longleftrightarrow>
     binary64 v \<and> (\<forall>y. binary64 y \<longrightarrow> \<bar>v - q\<bar> \<le> \<bar>y - q\<bar>)
     \<and> (\<forall>y. binary64 y \<and> y \<noteq> v \<and> \<bar>y - q\<bar> = \<bar>v - q\<bar> \<longrightarrow>
            (\<exists>j. v = of_int (2 * j) * \<bar>y - v\<bar>))"

text \<open>
  \<open>m\<close> is \<open>q\<close> rounded to a multiple of the last place \<open>2\<^sup>k\<close> of the binade of \<open>q\<close>,
  ties to even.
\<close>

definition rounds_to :: "rat \<Rightarrow> int \<Rightarrow> int \<Rightarrow> bool" where
  "rounds_to q m k \<longleftrightarrow>
     (\<exists>e. 2 powi e \<le> q \<and> q < 2 powi (e + 1) \<and> k = max e (- 1022) - 52
        \<and> \<bar>of_int m - q / 2 powi k\<bar> \<le> 1 / 2
        \<and> (\<bar>of_int m - q / 2 powi k\<bar> = 1 / 2 \<longrightarrow> even m))"

text \<open>Three processes whose waiting times under FCFS are 0, 0 and 1.\<close>

definition thirds_store :: "ref \<Rightarrow> process" where
  "thirds_store =
     (\<lambda>_. Process_init [] 0 0)
       (0 := Process_init ''P0'' 0 1, 1 := Process_init ''P1'' 1 1,
        2 := Process_init ''P2'' 1 1)"

text \<open>A process with a very long burst, and one that waits for it.\<close>

definition huge_store :: "ref \<Rightarrow> process" where
  "huge_store =
     (\<lambda>_. Process_init [] 0 0)
       (0 := Process_init ''P0'' 0 (2 ^ 1025), 1 := Process_init ''P1'' 0 1)"

section \<open>Facts about single steps\<close>

lemma set_completion_t_cases:
  "set_completion_t p t =
     (if t < burst_t p then Inl (InvalidCompletionTimeError, p)
      else Inr (p\<lparr>completion_t := Some t\<rparr>))"
  by (simp add: set_completion_t_def)

lemma update_running_process_None:
  "running s = None \<Longrightarrow> update_running_process s = Inr s"
  by (simp add: update_running_process_def)

lemma update_running_process_Some:
  assumes "running s = Some r"
  shows "update_running_process s =
     (if total_t s < 0
      then Inl (InvalidCompletionTimeError, s\<lparr>total_t := total_t s + burst_t (store s r)\<rparr>)
      else Inr (s\<lparr>total_t := total_t s + burst_t (store s r),
                 store := (store s)(r := (store s r)
                   \<lparr>completion_t := Some (total_t s + burst_t (store s r)),
                    turnaround_t := Some (total_t s + burst_t (store s r) - arrival_t (store s r)),
                    waiting_t := Some (total_t s + burst_t (store s r) - arrival_t (store s r)
                                         - burst_t (store s r))\<rparr>)\<rparr>))"
  using assms
  by (simp add: update_running_process_def set_completion_t_def set_turnaround_t_def
        set_waiting_t_def Let_def)

lemma fcfs_execute_None: "running s = None \<Longrightarrow> fcfs_execute s = Inr s"
  by (subst fcfs_execute.simps) simp

lemma fcfs_execute_Some:
  "running s = Some r \<Longrightarrow>
   fcfs_execute s =
     (case update_running_process s of
        Inl err \<Rightarrow> Inl err
      | Inr s1 \<Rightarrow> fcfs_execute (fcfs_next (s1\<lparr>history := history s1 @ [r]\<rparr>)))"
  by (subst fcfs_execute.simps) simp

lemma sjf_loop_None: "running s = None \<Longrightarrow> sjf_loop s = Inr s"
  by (subst sjf_loop.simps) simp

lemma sjf_loop_Some:
  "running s = Some r \<Longrightarrow>
   sjf_loop s =
     (case update_running_process s of
        Inl err \<Rightarrow> Inl err
      | Inr s1 \<Rightarrow> sjf_loop (set_highest_priority_process (s1\<lparr>history := history s1 @ [r]\<rparr>)))"
  by (subst sjf_loop.simps) simp

text \<open>Invariant rules for the two loops.\<close>

lemma fcfs_execute_invariant:
  assumes "fcfs_execute s = Inr s'" and "I s"
    and step: "\<And>s r s1. I s \<Longrightarrow> running s = Some r \<Longrightarrow> update_running_process s = Inr s1
                 \<Longrightarrow> I (fcfs_next (s1\<lparr>history := history s1 @ [r]\<rparr>))"
  shows "I s' \<and> running s' = None"
  using assms(1,2)
proof (induction s rule: fcfs_execute.induct)
  case (1 s)
  show ?case
  proof (cases "running s")
    case None
    with "1.prems" show ?thesis by (simp add: fcfs_execute_None)
  next
    case (Some r)
    with "1.prems"(1) obtain s1 where
      upd: "update_running_process s = Inr s1" and
      rec: "fcfs_execute (fcfs_next (s1\<lparr>history := history s1 @ [r]\<rparr>)) = Inr s'"
      by (auto simp: fcfs_execute_Some split: sum.splits)
    from step[OF "1.prems"(2) Some upd] have "I (fcfs_next (s1\<lparr>history := history s1 @ [r]\<rparr>))" .
    from "1.IH"[OF Some upd rec this] show ?thesis .
  qed
qed

lemma fcfs_execute_returns:
  assumes "I s"
    and step: "\<And>s r. I s \<Longrightarrow> running s = Some r \<Longrightarrow>
                 \<exists>s1. update_running_process s = Inr s1
                      \<and> I (fcfs_next (s1\<lparr>history := history s1 @ [r]\<rparr>))"
  shows "\<exists>s'. fcfs_execute s = Inr s'"
  using assms(1)
proof (induction s rule: fcfs_execute.induct)
  case (1 s)
  show ?case
  proof (cases "running s")
    case None
    then show ?thesis by (simp add: fcfs_execute_None)
  next
    case (Some r)
    from step[OF "1.prems" Some] obtain s1 where
      upd: "update_running_process s = Inr s1" and
      inv: "I (fcfs_next (s1\<lparr>history := history s1 @ [r]\<rparr>))" by blast
    from "1.IH"[OF Some upd inv] show ?thesis using Some upd by (simp add: fcfs_execute_Some)
  qed
qed

lemma sjf_loop_invariant:
  assumes "sjf_loop s = Inr s'" and "I s"
    and step: "\<And>s r s1. I s \<Longrightarrow> running s = Some r \<Longrightarrow> update_running_process s = Inr s1
                 \<Longrightarrow> I (set_highest_priority_process (s1\<lparr>history := history s1 @ [r]\<rparr>))"
  shows "I s' \<and> running s' = None"
  using assms(1,2)
proof (induction s rule: sjf_loop.induct)
  case (1 s)
  show ?case
  proof (cases "running s")
    case None
    with "1.prems" show ?thesis by (simp add: sjf_loop_None)
  next
    case (Some r)
    with "1.prems"(1) obtain s1 where
      upd: "update_running_process s = Inr s1" and
      rec: "sjf_loop (set_highest_priority_process (s1\<lparr>history := history s1 @ [r]\<rparr>)) = Inr s'"
      by (auto simp: sjf_loop_Some split: sum.splits)
    from step[OF "1.prems"(2) Some upd]
    have "I (set_highest_priority_process (s1\<lparr>history := history s1 @ [r]\<rparr>))" .
    from "1.IH"[OF Some upd rec this] show ?thesis .
  qed
qed

lemma sjf_loop_returns:
  assumes "I s"
    and step: "\<And>s r. I s \<Longrightarrow> running s = Some r \<Longrightarrow>
                 \<exists>s1. update_running_process s = Inr s1
                      \<and> I (set_highest_priority_process (s1\<lparr>history := history s1 @ [r]\<rparr>))"
  shows "\<exists>s'. sjf_loop s = Inr s'"
  using assms(1)
proof (induction s rule: sjf_loop.induct)
  case (1 s)
  show ?case
  proof (cases "running s")
    case None
    then show ?thesis by (simp add: sjf_loop_None)
  next
    case (Some r)
    from step[OF "1.prems" Some] obtain s1 where
      upd: "update_running_process s = Inr s1" and
      inv: "I (set_highest_priority_process (s1\<lparr>history := history s1 @ [r]\<rparr>))" by blast
    from "1.IH"[OF Some upd inv] show ?thesis using Some upd by (simp add: sjf_loop_Some)
  qed
qed

lemma update_running_process_InrD:
  assumes "update_running_process s = Inr s1" and "running s = Some r"
  shows "s1 = s\<lparr>total_t := total_t s + burst_t (store s r),
                 store := (store s)(r := finished (store s r) (total_t s + burst_t (store s r)))\<rparr>"
    and "0 \<le> total_t s"
  using assms by (auto simp: update_running_process_Some finished_def split: if_splits)

lemma update_running_process_Inr_iff:
  assumes "running s = Some r"
  shows "(\<exists>s1. update_running_process s = Inr s1) \<longleftrightarrow> 0 \<le> total_t s"
  using assms by (auto simp: update_running_process_Some)

lemma timings_ok_finished: "timings_ok (finished p c) \<longleftrightarrow> burst_t p \<le> c"
  by (simp add: timings_ok_def finished_def)

lemma finished_static [simp]:
  "p_id (finished p c) = p_id p" "arrival_t (finished p c) = arrival_t p"
  "burst_t (finished p c) = burst_t p"
  "completion_t (finished p c) = Some c"
  "turnaround_t (finished p c) = Some (c - arrival_t p)"
  "waiting_t (finished p c) = Some (c - arrival_t p - burst_t p)"
  by (simp_all add: finished_def)

lemma fcfs_next_Nil:
  "ready_queue s = [] \<Longrightarrow> fcfs_next s = s\<lparr>running := None\<rparr>"
  by (simp add: fcfs_next_def list_pop0_def)

lemma fcfs_next_Cons:
  "ready_queue s = q # rest \<Longrightarrow> fcfs_next s = s\<lparr>running := Some q, ready_queue := rest\<rparr>"
  by (simp add: fcfs_next_def list_pop0_def)

lemma fcfs_next_fields [simp]:
  "history (fcfs_next s) = history s" "store (fcfs_next s) = store s"
  "total_t (fcfs_next s) = total_t s"
  by (cases "ready_queue s"; simp add: fcfs_next_Nil fcfs_next_Cons)+

lemma pending_fcfs_next:
  "pending (fcfs_next s) = ready_queue s"
  by (cases "ready_queue s") (simp_all add: fcfs_next_Nil fcfs_next_Cons pending_def)

lemma foldl_fcfs_add_process_running:
  "running s = Some r \<Longrightarrow>
   foldl fcfs_add_process s ps = s\<lparr>ready_queue := ready_queue s @ ps\<rparr>"
  by (induction ps arbitrary: s) (simp_all add: fcfs_add_process_def)

lemma fcfs_admit_Nil: "fcfs_admit st [] = Scheduler_init st"
  by (simp add: fcfs_admit_def)

lemma fcfs_admit_Cons:
  "fcfs_admit st (p # ps) = (Scheduler_init st)\<lparr>running := Some p, ready_queue := ps\<rparr>"
  by (simp add: fcfs_admit_def fcfs_add_process_def Scheduler_init_def
        foldl_fcfs_add_process_running)

lemma fcfs_admit_fields [simp]:
  "history (fcfs_admit st ps) = []" "store (fcfs_admit st ps) = st"
  "total_t (fcfs_admit st ps) = 0" "pending (fcfs_admit st ps) = ps"
  by (cases ps; simp add: fcfs_admit_Nil fcfs_admit_Cons Scheduler_init_def pending_def)+

lemma sjf_admit_eq: "sjf_admit st ps = (Scheduler_init st)\<lparr>ready_queue := ps\<rparr>"
proof -
  have "foldl sjf_add_process s ps = s\<lparr>ready_queue := ready_queue s @ ps\<rparr>" for s
    by (induction ps arbitrary: s) (simp_all add: sjf_add_process_def)
  then show ?thesis by (simp add: sjf_admit_def Scheduler_init_def)
qed

text \<open>FCFS: the processes run and still to run, in order, never change.\<close>

lemma fcfs_step_order:
  assumes "history s @ pending s = ps" and "running s = Some r"
    and "update_running_process s = Inr s1"
  shows "history (fcfs_next (s1\<lparr>history := history s1 @ [r]\<rparr>))
         @ pending (fcfs_next (s1\<lparr>history := history s1 @ [r]\<rparr>)) = ps"
proof -
  note s1 = update_running_process_InrD(1)[OF assms(3,2)]
  have "pending s = r # ready_queue s" using assms(2) by (simp add: pending_def)
  moreover have "ready_queue s1 = ready_queue s" "history s1 = history s"
    by (simp_all add: s1)
  ultimately show ?thesis using assms(1) by (simp add: pending_fcfs_next)
qed

lemma fcfs_execute_order:
  assumes "fcfs_execute s = Inr s'"
  shows "history s' = history s @ pending s"
proof -
  have "history s' @ pending s' = history s @ pending s \<and> running s' = None"
  proof (rule fcfs_execute_invariant[OF assms,
           where I = "\<lambda>x. history x @ pending x = history s @ pending s"])
    show "history s @ pending s = history s @ pending s" by simp
  qed (rule fcfs_step_order)
  then have eq: "history s' @ pending s' = history s @ pending s" and "running s' = None"
    by blast+
  then have "pending s' = []" by (simp add: pending_def)
  with eq show ?thesis by simp
qed

section \<open>The selection of the SJF engine\<close>

lemma foldl_min_first:
  fixes f :: "'a \<Rightarrow> int"
  assumes "foldl (\<lambda>m y. if f y < f m then y else m) a xs = m"
  shows "(m = a \<and> (\<forall>x\<in>set xs. f a \<le> f x)) \<or>
         (\<exists>as bs. xs = as @ m # bs \<and> f m < f a \<and> (\<forall>x\<in>set as. f m < f x)
                  \<and> (\<forall>x\<in>set bs. f m \<le> f x))"
  using assms
proof (induction xs arbitrary: a)
  case Nil
  then show ?case by simp
next
  case (Cons x xs)
  show ?case
  proof (cases "f x < f a")
    case True
    with Cons.prems have "foldl (\<lambda>m y. if f y < f m then y else m) x xs = m" by simp
    from Cons.IH[OF this] show ?thesis
    proof
      assume "m = x \<and> (\<forall>y\<in>set xs. f x \<le> f y)"
      with True have "x # xs = [] @ m # xs \<and> f m < f a \<and> (\<forall>y\<in>set []. f m < f y)
                      \<and> (\<forall>y\<in>set xs. f m \<le> f y)" by simp
      then show ?thesis by blast
    next
      assume "\<exists>as bs. xs = as @ m # bs \<and> f m < f x \<and> (\<forall>y\<in>set as. f m < f y)
                \<and> (\<forall>y\<in>set bs. f m \<le> f y)"
      then obtain as bs where *: "xs = as @ m # bs" "f m < f x" "\<forall>y\<in>set as. f m < f y"
        "\<forall>y\<in>set bs. f m \<le> f y" by blast
      with True have "x # xs = (x # as) @ m # bs \<and> f m < f a \<and> (\<forall>y\<in>set (x # as). f m < f y)
                      \<and> (\<forall>y\<in>set bs. f m \<le> f y)" by simp
      then show ?thesis by blast
    qed
  next
    case False
    with Cons.prems have "foldl (\<lambda>m y. if f y < f m then y else m) a xs = m" by simp
    from Cons.IH[OF this] show ?thesis
    proof
      assume "m = a \<and> (\<forall>y\<in>set xs. f a \<le> f y)"
      with False show ?thesis by simp
    next
      assume "\<exists>as bs. xs = as @ m # bs \<and> f m < f a \<and> (\<forall>y\<in>set as. f m < f y)
                \<and> (\<forall>y\<in>set bs. f m \<le> f y)"
      then obtain as bs where *: "xs = as @ m # bs" "f m < f a" "\<forall>y\<in>set as. f m < f y"
        "\<forall>y\<in>set bs. f m \<le> f y" by blast
      with False have "x # xs = (x # as) @ m # bs \<and> f m < f a \<and> (\<forall>y\<in>set (x # as). f m < f y)
                      \<and> (\<forall>y\<in>set bs. f m \<le> f y)" by simp
      then show ?thesis by blast
    qed
  qed
qed

lemma py_min_key_None: "py_min_key f xs = None \<longleftrightarrow> xs = []"
  by (simp add: py_min_key_def split: list.splits)

lemma py_min_key_Some:
  assumes "py_min_key f xs = Some m"
  shows "\<exists>as bs. xs = as @ m # bs \<and> (\<forall>x\<in>set as. f m < f x) \<and> (\<forall>x\<in>set bs. f m \<le> f x)"
proof (cases xs)
  case Nil
  with assms show ?thesis by (simp add: py_min_key_def)
next
  case (Cons a rest)
  with assms have "foldl (\<lambda>m y. if f y < f m then y else m) a rest = m"
    by (simp add: py_min_key_def)
  from foldl_min_first[OF this] show ?thesis
  proof
    assume "m = a \<and> (\<forall>x\<in>set rest. f a \<le> f x)"
    with Cons have "xs = [] @ m # rest \<and> (\<forall>x\<in>set []. f m < f x) \<and> (\<forall>x\<in>set rest. f m \<le> f x)"
      by simp
    then show ?thesis by blast
  next
    assume "\<exists>as bs. rest = as @ m # bs \<and> f m < f a \<and> (\<forall>x\<in>set as. f m < f x)
              \<and> (\<forall>x\<in>set bs. f m \<le> f x)"
    then obtain as bs where "rest = as @ m # bs" "f m < f a" "\<forall>x\<in>set as. f m < f x"
      "\<forall>x\<in>set bs. f m \<le> f x" by blast
    with Cons have "xs = (a # as) @ m # bs \<and> (\<forall>x\<in>set (a # as). f m < f x)
                    \<and> (\<forall>x\<in>set bs. f m \<le> f x)" by simp
    then show ?thesis by blast
  qed
qed

lemma filter_eq_appendD:
  assumes "filter P xs = as @ ys"
  shows "\<exists>us vs. xs = us @ vs \<and> filter P us = as \<and> filter P vs = ys"
  using assms
proof (induction xs arbitrary: as)
  case Nil
  then show ?case by simp
next
  case (Cons x xs)
  show ?case
  proof (cases "P x \<and> as = []")
    case True
    with Cons.prems have "x # xs = [] @ (x # xs) \<and> filter P [] = as \<and> filter P (x # xs) = ys"
      by simp
    then show ?thesis by blast
  next
    case False
    then have "\<exists>as'. filter P xs = as' @ ys \<and> filter P [x] @ as' = as"
      using Cons.prems by (cases as) (auto split: if_splits)
    then obtain as' where a: "filter P xs = as' @ ys" and b: "filter P [x] @ as' = as" by blast
    from Cons.IH[OF a] obtain us vs where "xs = us @ vs" "filter P us = as'" "filter P vs = ys"
      by blast
    with b have "x # xs = (x # us) @ vs \<and> filter P (x # us) = as \<and> filter P vs = ys"
      by (auto split: if_splits)
    then show ?thesis by blast
  qed
qed

text \<open>The first minimum of the filtered list, located in the unfiltered one.\<close>

lemma py_min_key_filter_Some:
  assumes "py_min_key f (filter P xs) = Some m"
  shows "\<exists>pre post. xs = pre @ m # post \<and> P m \<and> m \<notin> set pre
           \<and> (\<forall>x\<in>set pre. P x \<longrightarrow> f m < f x) \<and> (\<forall>x\<in>set post. P x \<longrightarrow> f m \<le> f x)"
proof -
  from py_min_key_Some[OF assms] obtain as bs where
    fl: "filter P xs = as @ m # bs" and lt: "\<forall>x\<in>set as. f m < f x"
    and le: "\<forall>x\<in>set bs. f m \<le> f x" by blast
  from fl obtain us vs where xs: "xs = us @ vs" and us: "filter P us = as"
    and vs: "filter P vs = m # bs" using filter_eq_appendD by blast
  from vs obtain ws post where vs': "vs = ws @ m # post" and ws: "\<forall>u\<in>set ws. \<not> P u"
    and Pm: "P m" and bs: "bs = filter P post" by (auto simp: filter_eq_Cons_iff)
  have pre_lt: "\<forall>x\<in>set (us @ ws). P x \<longrightarrow> f m < f x"
    using lt us ws by auto
  then have "m \<notin> set (us @ ws)" using Pm by force
  moreover have "\<forall>x\<in>set post. P x \<longrightarrow> f m \<le> f x" using le bs by auto
  moreover have "xs = (us @ ws) @ m # post" using xs vs' by simp
  ultimately show ?thesis using Pm pre_lt by blast
qed

lemma remove1_first_split: "m \<notin> set pre \<Longrightarrow> remove1 m (pre @ m # post) = pre @ post"
  by (simp add: remove1_append)

lemma set_highest_priority_process_None:
  assumes "\<forall>p\<in>set (ready_queue s). \<not> arrived s p"
  shows "set_highest_priority_process s = s\<lparr>running := None\<rparr>"
proof -
  have "filter (\<lambda>p. arrival_t (store s p) \<le> total_t s) (ready_queue s) = []"
    using assms by (simp add: arrived_def filter_empty_conv)
  then show ?thesis by (simp add: set_highest_priority_process_def py_min_key_def)
qed

lemma set_highest_priority_process_Some:
  assumes "\<exists>p\<in>set (ready_queue s). arrived s p"
  shows "\<exists>m pre post. ready_queue s = pre @ m # post \<and> arrived s m \<and> m \<notin> set pre
           \<and> (\<forall>x\<in>set pre. arrived s x \<longrightarrow> burst_t (store s m) < burst_t (store s x))
           \<and> (\<forall>x\<in>set post. arrived s x \<longrightarrow> burst_t (store s m) \<le> burst_t (store s x))
           \<and> set_highest_priority_process s = s\<lparr>running := Some m, ready_queue := pre @ post\<rparr>"
proof -
  let ?P = "\<lambda>p. arrival_t (store s p) \<le> total_t s"
  let ?f = "\<lambda>p. burst_t (store s p)"
  have "filter ?P (ready_queue s) \<noteq> []"
    using assms by (auto simp: arrived_def filter_empty_conv)
  then obtain m where m: "py_min_key ?f (filter ?P (ready_queue s)) = Some m"
    using py_min_key_None[of ?f "filter ?P (ready_queue s)"] by (cases "py_min_key ?f (filter ?P (ready_queue s))") auto
  from py_min_key_filter_Some[OF m] obtain pre post where
    q: "ready_queue s = pre @ m # post" and Pm: "?P m" and notin: "m \<notin> set pre"
    and lt: "\<forall>x\<in>set pre. ?P x \<longrightarrow> ?f m < ?f x" and le: "\<forall>x\<in>set post. ?P x \<longrightarrow> ?f m \<le> ?f x"
    by blast
  have "list_remove (ready_queue s) m = Some (pre @ post)"
    using q notin by (simp add: list_remove_def remove1_append)
  with m have "set_highest_priority_process s = s\<lparr>running := Some m, ready_queue := pre @ post\<rparr>"
    by (simp add: set_highest_priority_process_def)
  with q Pm notin lt le show ?thesis unfolding arrived_def by blast
qed

lemma set_highest_priority_process_fields [simp]:
  "history (set_highest_priority_process s) = history s"
  "store (set_highest_priority_process s) = store s"
  "total_t (set_highest_priority_process s) = total_t s"
  by (simp_all add: set_highest_priority_process_def split: option.splits)

section \<open>Invariants of the runs\<close>

lemma after_run_eq:
  assumes "update_running_process s = Inr s1" and "running s = Some r"
  shows "s1\<lparr>history := history s1 @ [r]\<rparr> =
         s\<lparr>total_t := total_t s + burst_t (store s r),
           store := (store s)(r := finished (store s r) (total_t s + burst_t (store s r))),
           history := history s @ [r]\<rparr>"
  by (simp add: update_running_process_InrD(1)[OF assms])

text \<open>Timing fields of the processes in history.\<close>

lemma timings_step:
  assumes inv: "\<forall>p\<in>set (history s). timings_ok (store s p)"
    and run: "running s = Some r" and upd: "update_running_process s = Inr s1"
  shows "\<forall>p\<in>set (history s1 @ [r]). timings_ok (store s1 p)"
proof -
  note s1 = update_running_process_InrD[OF upd run]
  have "timings_ok (store s1 r)"
    using s1(2) by (simp add: s1(1) timings_ok_finished)
  moreover have "timings_ok (store s1 p)" if "p \<in> set (history s)" for p
    using inv that \<open>timings_ok (store s1 r)\<close> by (cases "p = r") (simp_all add: s1(1))
  ultimately show ?thesis by (simp add: s1(1))
qed

lemma fcfs_execute_timings:
  assumes "fcfs_execute s = Inr s'" and "\<forall>p\<in>set (history s). timings_ok (store s p)"
  shows "\<forall>p\<in>set (history s'). timings_ok (store s' p)"
proof -
  have "(\<forall>p\<in>set (history s'). timings_ok (store s' p)) \<and> running s' = None"
  proof (rule fcfs_execute_invariant[OF assms(1),
           where I = "\<lambda>x. \<forall>p\<in>set (history x). timings_ok (store x p)"])
    show "\<forall>p\<in>set (history s). timings_ok (store s p)" by (rule assms(2))
  next
    fix x r x1
    assume "\<forall>p\<in>set (history x). timings_ok (store x p)" "running x = Some r"
      "update_running_process x = Inr x1"
    from timings_step[OF this]
    show "\<forall>p\<in>set (history (fcfs_next (x1\<lparr>history := history x1 @ [r]\<rparr>))).
            timings_ok (store (fcfs_next (x1\<lparr>history := history x1 @ [r]\<rparr>)) p)"
      by simp
  qed
  then show ?thesis by blast
qed

lemma sjf_loop_timings:
  assumes "sjf_loop s = Inr s'" and "\<forall>p\<in>set (history s). timings_ok (store s p)"
  shows "\<forall>p\<in>set (history s'). timings_ok (store s' p)"
proof -
  have "(\<forall>p\<in>set (history s'). timings_ok (store s' p)) \<and> running s' = None"
  proof (rule sjf_loop_invariant[OF assms(1),
           where I = "\<lambda>x. \<forall>p\<in>set (history x). timings_ok (store x p)"])
    show "\<forall>p\<in>set (history s). timings_ok (store s p)" by (rule assms(2))
  next
    fix x r x1
    assume "\<forall>p\<in>set (history x). timings_ok (store x p)" "running x = Some r"
      "update_running_process x = Inr x1"
    from timings_step[OF this]
    show "\<forall>p\<in>set (history (set_highest_priority_process (x1\<lparr>history := history x1 @ [r]\<rparr>))).
            timings_ok (store (set_highest_priority_process (x1\<lparr>history := history x1 @ [r]\<rparr>)) p)"
      by simp
  qed
  then show ?thesis by blast
qed

text \<open>What \<^verbatim>\<open>setup\<close> does to a fresh scheduler.\<close>

lemma sjf_setup_Nil:
  "sjf_setup (sjf_admit st []) = Inl (IndexError, Scheduler_init st)"
  by (simp add: sjf_setup_def sjf_admit_eq Scheduler_init_def list_pop0_def)

lemma sjf_setup_admit:
  assumes "ps \<noteq> []"
  shows "\<exists>q rest. sort_key (\<lambda>p. arrival_t (st p)) ps = q # rest \<and>
           sjf_setup (sjf_admit st ps) = Inr ((Scheduler_init st)\<lparr>running := Some q, ready_queue := rest\<rparr>)"
proof -
  have "sort_key (\<lambda>p. arrival_t (st p)) ps \<noteq> []"
    using assms by (metis length_sort length_0_conv)
  then obtain q rest where "sort_key (\<lambda>p. arrival_t (st p)) ps = q # rest"
    by (cases "sort_key (\<lambda>p. arrival_t (st p)) ps") auto
  then show ?thesis
    by (simp add: sjf_setup_def sjf_admit_eq Scheduler_init_def list_pop0_def)
qed

lemma sjf_execute_InrD:
  assumes "sjf_execute (sjf_admit st ps) = Inr s'"
  shows "\<exists>s1. sjf_loop s1 = Inr s' \<and> history s1 = [] \<and> total_t s1 = 0 \<and> store s1 = st
           \<and> pending s1 = sort_key (\<lambda>p. arrival_t (st p)) ps \<and> running s1 \<noteq> None"
proof (cases "ps = []")
  case True
  with assms show ?thesis by (simp add: sjf_execute_def sjf_setup_Nil)
next
  case False
  from sjf_setup_admit[OF this, of st] obtain q rest where
    "sort_key (\<lambda>p. arrival_t (st p)) ps = q # rest"
    "sjf_setup (sjf_admit st ps) = Inr ((Scheduler_init st)\<lparr>running := Some q, ready_queue := rest\<rparr>)"
    by blast
  with assms show ?thesis
    by (auto simp: sjf_execute_def Scheduler_init_def pending_def)
qed

section \<open>Choices, totality and the clock\<close>

lemma set_highest_priority_process_cases:
  obtains (none) "\<forall>p\<in>set (ready_queue s). \<not> arrived s p"
      "set_highest_priority_process s = s\<lparr>running := None\<rparr>"
  | (some) m pre post where "ready_queue s = pre @ m # post" "arrived s m" "m \<notin> set pre"
      "\<forall>x\<in>set pre. arrived s x \<longrightarrow> burst_t (store s m) < burst_t (store s x)"
      "\<forall>x\<in>set post. arrived s x \<longrightarrow> burst_t (store s m) \<le> burst_t (store s x)"
      "set_highest_priority_process s = s\<lparr>running := Some m, ready_queue := pre @ post\<rparr>"
proof (cases "\<exists>p\<in>set (ready_queue s). arrived s p")
  case True
  from set_highest_priority_process_Some[OF this] show ?thesis using some by blast
next
  case False
  then have "\<forall>p\<in>set (ready_queue s). \<not> arrived s p" by blast
  from this set_highest_priority_process_None[OF this] show ?thesis by (rule none)
qed

lemma mset_not_run_select:
  "mset (not_run (set_highest_priority_process s)) = mset (ready_queue s)"
  by (cases s rule: set_highest_priority_process_cases) (simp_all add: not_run_def)

lemma set_pending_select:
  "set (pending (set_highest_priority_process s)) \<subseteq> set (ready_queue s)"
  by (cases s rule: set_highest_priority_process_cases) (auto simp: pending_def)

lemma distinct_pending_select:
  "distinct (ready_queue s) \<Longrightarrow> distinct (pending (set_highest_priority_process s))"
  by (cases s rule: set_highest_priority_process_cases) (auto simp: pending_def)

lemma select_stops_unarrived:
  "running (set_highest_priority_process s) = None \<Longrightarrow>
   \<forall>p\<in>set (ready_queue (set_highest_priority_process s)). \<not> arrived (set_highest_priority_process s) p"
  by (cases s rule: set_highest_priority_process_cases) (auto simp: arrived_def)

text \<open>A run step succeeds when the clock is not negative.\<close>

lemma nonneg_step:
  assumes "0 \<le> total_t s" and "running s = Some r" and "0 \<le> burst_t (store s r)"
  shows "\<exists>s1. update_running_process s = Inr s1 \<and> 0 \<le> total_t s1
           \<and> ready_queue s1 = ready_queue s
           \<and> (\<forall>p. burst_t (store s1 p) = burst_t (store s p))"
  using assms by (simp add: update_running_process_Some)

lemma fcfs_execute_total:
  assumes "0 \<le> total_t s" and "\<forall>p\<in>set (pending s). 0 \<le> burst_t (store s p)"
  shows "\<exists>s'. fcfs_execute s = Inr s'"
proof (rule fcfs_execute_returns[where
         I = "\<lambda>x. 0 \<le> total_t x \<and> (\<forall>p\<in>set (pending x). 0 \<le> burst_t (store x p))"])
  show "0 \<le> total_t s \<and> (\<forall>p\<in>set (pending s). 0 \<le> burst_t (store s p))"
    using assms by simp
next
  fix x r
  assume inv: "0 \<le> total_t x \<and> (\<forall>p\<in>set (pending x). 0 \<le> burst_t (store x p))"
    and run: "running x = Some r"
  then have pend: "pending x = r # ready_queue x" by (simp add: pending_def)
  with inv have "0 \<le> burst_t (store x r)" by simp
  from nonneg_step[OF _ run this] inv obtain x1 where
    x1: "update_running_process x = Inr x1" "0 \<le> total_t x1" "ready_queue x1 = ready_queue x"
      "\<forall>p. burst_t (store x1 p) = burst_t (store x p)" by blast
  let ?n = "fcfs_next (x1\<lparr>history := history x1 @ [r]\<rparr>)"
  have "pending ?n = ready_queue x" using x1(3) by (simp add: pending_fcfs_next)
  with inv pend x1 have "0 \<le> total_t ?n \<and> (\<forall>p\<in>set (pending ?n). 0 \<le> burst_t (store ?n p))"
    by simp
  with x1(1) show "\<exists>x1. update_running_process x = Inr x1 \<and>
      (0 \<le> total_t (fcfs_next (x1\<lparr>history := history x1 @ [r]\<rparr>)) \<and>
       (\<forall>p\<in>set (pending (fcfs_next (x1\<lparr>history := history x1 @ [r]\<rparr>))).
          0 \<le> burst_t (store (fcfs_next (x1\<lparr>history := history x1 @ [r]\<rparr>)) p)))"
    by blast
qed

lemma sjf_loop_total:
  assumes "0 \<le> total_t s" and "\<forall>p\<in>set (pending s). 0 \<le> burst_t (store s p)"
  shows "\<exists>s'. sjf_loop s = Inr s'"
proof (rule sjf_loop_returns[where
         I = "\<lambda>x. 0 \<le> total_t x \<and> (\<forall>p\<in>set (pending x). 0 \<le> burst_t (store x p))"])
  show "0 \<le> total_t s \<and> (\<forall>p\<in>set (pending s). 0 \<le> burst_t (store s p))"
    using assms by simp
next
  fix x r
  assume inv: "0 \<le> total_t x \<and> (\<forall>p\<in>set (pending x). 0 \<le> burst_t (store x p))"
    and run: "running x = Some r"
  then have pend: "pending x = r # ready_queue x" by (simp add: pending_def)
  with inv have "0 \<le> burst_t (store x r)" by simp
  from nonneg_step[OF _ run this] inv obtain x1 where
    x1: "update_running_process x = Inr x1" "0 \<le> total_t x1" "ready_queue x1 = ready_queue x"
      "\<forall>p. burst_t (store x1 p) = burst_t (store x p)" by blast
  let ?n = "set_highest_priority_process (x1\<lparr>history := history x1 @ [r]\<rparr>)"
  have "set (pending ?n) \<subseteq> set (ready_queue x)"
    using set_pending_select[of "x1\<lparr>history := history x1 @ [r]\<rparr>"] x1(3) by simp
  with inv pend x1 have "0 \<le> total_t ?n \<and> (\<forall>p\<in>set (pending ?n). 0 \<le> burst_t (store ?n p))"
    by auto
  with x1(1) show "\<exists>x1. update_running_process x = Inr x1 \<and>
      (0 \<le> total_t (set_highest_priority_process (x1\<lparr>history := history x1 @ [r]\<rparr>)) \<and>
       (\<forall>p\<in>set (pending (set_highest_priority_process (x1\<lparr>history := history x1 @ [r]\<rparr>))).
          0 \<le> burst_t (store (set_highest_priority_process (x1\<lparr>history := history x1 @ [r]\<rparr>)) p)))"
    by blast
qed

lemma history_completion_ts_next:
  "history a = history b \<Longrightarrow> store a = store b \<Longrightarrow>
   history_completion_ts a = history_completion_ts b"
  by (simp add: history_completion_ts_def)

lemma completion_ts_step:
  assumes run: "running x = Some r" and upd: "update_running_process x = Inr x1"
    and fresh: "r \<notin> set (history x)"
  shows "history_completion_ts (x1\<lparr>history := history x1 @ [r]\<rparr>)
         = history_completion_ts x @ [Some (total_t x1)]"
proof -
  note x1 = update_running_process_InrD(1)[OF upd run]
  have "map (\<lambda>p. completion_t (store x1 p)) (history x)
        = map (\<lambda>p. completion_t (store x p)) (history x)"
    using fresh by (intro map_cong) (auto simp: x1)
  moreover have "completion_t (store x1 r) = Some (total_t x1)" by (simp add: x1)
  moreover have "history x1 = history x" by (simp add: x1)
  ultimately show ?thesis by (simp add: history_completion_ts_def)
qed

text \<open>
  The clock invariant, for any way \<open>nxt\<close> of choosing the next process among the queued
  ones that leaves history, store and clock alone.
\<close>

lemma clock_step:
  assumes nxt: "\<And>y. history (nxt y) = history y" "\<And>y. store (nxt y) = store y"
      "\<And>y. total_t (nxt y) = total_t y"
      "\<And>y. set (pending (nxt y)) \<subseteq> set (ready_queue y)"
      "\<And>y. distinct (ready_queue y) \<Longrightarrow> distinct (pending (nxt y))"
    and dist: "distinct (history x @ pending x)"
    and clk: "0 \<le> total_t x"
    and pos: "\<forall>p\<in>set (pending x). 0 \<le> burst_t (store x p)"
    and srt: "\<exists>cs. history_completion_ts x = map Some cs \<and> sorted cs \<and> (\<forall>c\<in>set cs. c \<le> total_t x)"
    and run: "running x = Some r" and upd: "update_running_process x = Inr x1"
  shows "distinct (history (nxt (x1\<lparr>history := history x1 @ [r]\<rparr>))
                   @ pending (nxt (x1\<lparr>history := history x1 @ [r]\<rparr>)))
       \<and> 0 \<le> total_t (nxt (x1\<lparr>history := history x1 @ [r]\<rparr>))
       \<and> (\<forall>p\<in>set (pending (nxt (x1\<lparr>history := history x1 @ [r]\<rparr>))).
             0 \<le> burst_t (store (nxt (x1\<lparr>history := history x1 @ [r]\<rparr>)) p))
       \<and> (\<exists>cs. history_completion_ts (nxt (x1\<lparr>history := history x1 @ [r]\<rparr>)) = map Some cs
               \<and> sorted cs
               \<and> (\<forall>c\<in>set cs. c \<le> total_t (nxt (x1\<lparr>history := history x1 @ [r]\<rparr>))))"
proof -
  let ?y = "x1\<lparr>history := history x1 @ [r]\<rparr>"
  note x1 = update_running_process_InrD(1)[OF upd run]
  have pend: "pending x = r # ready_queue x" using run by (simp add: pending_def)
  have fresh: "r \<notin> set (history x)" and dq: "distinct (ready_queue x)"
    and rq: "r \<notin> set (ready_queue x)" and dh: "distinct (history x)"
    and disj: "set (history x) \<inter> set (ready_queue x) = {}"
    using dist pend by auto
  have br: "0 \<le> burst_t (store x r)" using pos pend by simp
  have q: "ready_queue ?y = ready_queue x" and h: "history ?y = history x @ [r]"
    and t: "total_t ?y = total_t x + burst_t (store x r)" "total_t x1 = total_t x + burst_t (store x r)"
    by (simp_all add: x1)
  have sub: "set (pending (nxt ?y)) \<subseteq> set (ready_queue x)" using nxt(4)[of ?y] q by simp
  have dp: "distinct (pending (nxt ?y))" using nxt(5)[of ?y] q dq by simp
  have 1: "distinct (history (nxt ?y) @ pending (nxt ?y))"
    using sub dp dh fresh rq disj by (auto simp: nxt(1) h)
  have 2: "0 \<le> total_t (nxt ?y)" using clk br by (simp add: nxt(3) t)
  have 3: "\<forall>p\<in>set (pending (nxt ?y)). 0 \<le> burst_t (store (nxt ?y) p)"
  proof
    fix p assume "p \<in> set (pending (nxt ?y))"
    with sub have "p \<in> set (pending x)" using pend by auto
    with pos have "0 \<le> burst_t (store x p)" by blast
    then show "0 \<le> burst_t (store (nxt ?y) p)" by (cases "p = r") (simp_all add: nxt(2) x1)
  qed
  from srt obtain cs where cs: "history_completion_ts x = map Some cs" "sorted cs"
    "\<forall>c\<in>set cs. c \<le> total_t x" by blast
  have "history_completion_ts (nxt ?y) = history_completion_ts ?y"
    by (rule history_completion_ts_next) (simp_all add: nxt(1,2))
  also have "\<dots> = history_completion_ts x @ [Some (total_t x1)]"
    by (rule completion_ts_step[OF run upd fresh])
  finally have a: "history_completion_ts (nxt ?y) = map Some (cs @ [total_t x1])"
    by (simp add: cs(1))
  have b: "sorted (cs @ [total_t x1])"
    using cs(2,3) br by (auto simp: sorted_append t(2))
  have c: "\<forall>c\<in>set (cs @ [total_t x1]). c \<le> total_t (nxt ?y)"
    using cs(3) br by (auto simp: nxt(3) t)
  from a b c have 4: "\<exists>cs. history_completion_ts (nxt ?y) = map Some cs \<and> sorted cs
      \<and> (\<forall>c\<in>set cs. c \<le> total_t (nxt ?y))" by blast
  from 1 2 3 4 show ?thesis by blast
qed

lemma fcfs_execute_clock:
  assumes "fcfs_execute s = Inr s'"
    and "distinct (history s @ pending s)" and "0 \<le> total_t s"
    and "\<forall>p\<in>set (pending s). 0 \<le> burst_t (store s p)"
    and "\<exists>cs. history_completion_ts s = map Some cs \<and> sorted cs \<and> (\<forall>c\<in>set cs. c \<le> total_t s)"
  shows "\<exists>cs. history_completion_ts s' = map Some cs \<and> sorted cs \<and> (\<forall>c\<in>set cs. c \<le> total_t s')"
proof -
  let ?K = "\<lambda>x. distinct (history x @ pending x) \<and> 0 \<le> total_t x
     \<and> (\<forall>p\<in>set (pending x). 0 \<le> burst_t (store x p))
     \<and> (\<exists>cs. history_completion_ts x = map Some cs \<and> sorted cs \<and> (\<forall>c\<in>set cs. c \<le> total_t x))"
  have "?K s' \<and> running s' = None"
  proof (rule fcfs_execute_invariant[OF assms(1), where I = ?K])
    show "?K s" using assms(2-5) by blast
  next
    fix x r x1
    assume K: "?K x" and run: "running x = Some r" and upd: "update_running_process x = Inr x1"
    show "?K (fcfs_next (x1\<lparr>history := history x1 @ [r]\<rparr>))"
    proof (rule clock_step[where nxt = fcfs_next, OF _ _ _ _ _ _ _ _ _ run upd])
      show "set (pending (fcfs_next y)) \<subseteq> set (ready_queue y)" for y
        by (simp add: pending_fcfs_next)
      show "distinct (ready_queue y) \<Longrightarrow> distinct (pending (fcfs_next y))" for y
        by (simp add: pending_fcfs_next)
    qed (use K in simp_all)
  qed
  then show ?thesis by blast
qed

lemma sjf_loop_clock:
  assumes "sjf_loop s = Inr s'"
    and "distinct (history s @ pending s)" and "0 \<le> total_t s"
    and "\<forall>p\<in>set (pending s). 0 \<le> burst_t (store s p)"
    and "\<exists>cs. history_completion_ts s = map Some cs \<and> sorted cs \<and> (\<forall>c\<in>set cs. c \<le> total_t s)"
  shows "\<exists>cs. history_completion_ts s' = map Some cs \<and> sorted cs \<and> (\<forall>c\<in>set cs. c \<le> total_t s')"
proof -
  let ?K = "\<lambda>x. distinct (history x @ pending x) \<and> 0 \<le> total_t x
     \<and> (\<forall>p\<in>set (pending x). 0 \<le> burst_t (store x p))
     \<and> (\<exists>cs. history_completion_ts x = map Some cs \<and> sorted cs \<and> (\<forall>c\<in>set cs. c \<le> total_t x))"
  have "?K s' \<and> running s' = None"
  proof (rule sjf_loop_invariant[OF assms(1), where I = ?K])
    show "?K s" using assms(2-5) by blast
  next
    fix x r x1
    assume K: "?K x" and run: "running x = Some r" and upd: "update_running_process x = Inr x1"
    show "?K (set_highest_priority_process (x1\<lparr>history := history x1 @ [r]\<rparr>))"
    proof (rule clock_step[where nxt = set_highest_priority_process, OF _ _ _ _ _ _ _ _ _ run upd])
      show "set (pending (set_highest_priority_process y)) \<subseteq> set (ready_queue y)" for y
        by (rule set_pending_select)
      show "distinct (ready_queue y) \<Longrightarrow> distinct (pending (set_highest_priority_process y))" for y
        by (rule distinct_pending_select)
    qed (use K in simp_all)
  qed
  then show ?thesis by blast
qed

text \<open>SJF: history and the processes not run hold exactly the admitted processes.\<close>

lemma sjf_loop_accounting:
  assumes "sjf_loop s = Inr s'" and "running s \<noteq> None"
  shows "mset (history s') + mset (ready_queue s') = mset (history s) + mset (pending s)
         \<and> (\<forall>p\<in>set (ready_queue s'). \<not> arrived s' p)"
proof -
  let ?M = "\<lambda>x. mset (history x) + mset (not_run x) = mset (history s) + mset (pending s)
     \<and> (running x = None \<longrightarrow> (\<forall>p\<in>set (ready_queue x). \<not> arrived x p))"
  have "?M s' \<and> running s' = None"
  proof (rule sjf_loop_invariant[OF assms(1), where I = ?M])
    show "?M s" using assms(2) by (auto simp: not_run_def pending_def)
  next
    fix x r x1
    assume M: "?M x" and run: "running x = Some r" and upd: "update_running_process x = Inr x1"
    let ?y = "x1\<lparr>history := history x1 @ [r]\<rparr>"
    note x1 = update_running_process_InrD(1)[OF upd run]
    have "mset (not_run (set_highest_priority_process ?y)) = mset (ready_queue x)"
      by (simp add: mset_not_run_select x1)
    moreover have "not_run x = r # ready_queue x" using run by (simp add: not_run_def)
    moreover have "history ?y = history x @ [r]" by (simp add: x1)
    ultimately have "mset (history (set_highest_priority_process ?y))
        + mset (not_run (set_highest_priority_process ?y)) = mset (history s) + mset (pending s)"
      using M by simp
    then show "?M (set_highest_priority_process ?y)"
      using select_stops_unarrived[of ?y] by blast
  qed
  then show ?thesis by (auto simp: not_run_def)
qed

lemma sjf_execute_total:
  assumes "ps \<noteq> []" and "\<forall>p\<in>set ps. 0 \<le> burst_t (st p)"
  shows "\<exists>s'. sjf_execute (sjf_admit st ps) = Inr s'"
proof -
  from sjf_setup_admit[OF assms(1), of st] obtain q rest where
    srt: "sort_key (\<lambda>p. arrival_t (st p)) ps = q # rest" and
    stp: "sjf_setup (sjf_admit st ps) = Inr ((Scheduler_init st)\<lparr>running := Some q, ready_queue := rest\<rparr>)"
    by blast
  let ?s1 = "(Scheduler_init st)\<lparr>running := Some q, ready_queue := rest\<rparr>"
  have "set (pending ?s1) = set ps"
    using srt by (simp add: pending_def) (metis set_sort list.set(2))
  with assms(2) have "\<forall>p\<in>set (pending ?s1). 0 \<le> burst_t (store ?s1 p)"
    by (simp add: Scheduler_init_def)
  moreover have "0 \<le> total_t ?s1" by (simp add: Scheduler_init_def)
  ultimately obtain s' where "sjf_loop ?s1 = Inr s'" using sjf_loop_total by blast
  with stp show ?thesis by (simp add: sjf_execute_def)
qed



section \<open>Sorted completion times and the metrics\<close>

lemma fcfs_admit_clock_start:
  "\<exists>cs. history_completion_ts (fcfs_admit st ps) = map Some cs \<and> sorted cs
        \<and> (\<forall>c\<in>set cs. c \<le> total_t (fcfs_admit st ps))"
proof -
  have "history_completion_ts (fcfs_admit st ps) = map Some [] \<and> sorted ([] :: int list)
        \<and> (\<forall>c\<in>set []. c \<le> total_t (fcfs_admit st ps))"
    by (simp add: history_completion_ts_def)
  then show ?thesis by blast
qed

lemma fcfs_completion_ts_sorted:
  assumes "distinct ps" and "\<forall>p\<in>set ps. 0 \<le> burst_t (st p)"
  shows "\<exists>s' cs. fcfs_execute (fcfs_admit st ps) = Inr s'
           \<and> history_completion_ts s' = map Some cs \<and> sorted cs"
proof -
  from fcfs_execute_total[of "fcfs_admit st ps"] assms(2)
  obtain s' where ex: "fcfs_execute (fcfs_admit st ps) = Inr s'" by auto
  have "\<exists>cs. history_completion_ts s' = map Some cs \<and> sorted cs \<and> (\<forall>c\<in>set cs. c \<le> total_t s')"
    by (rule fcfs_execute_clock[OF ex _ _ _ fcfs_admit_clock_start]) (use assms in simp_all)
  with ex show ?thesis by blast
qed

lemma sjf_completion_ts_sorted:
  assumes "distinct ps" and "\<forall>p\<in>set ps. 0 \<le> burst_t (st p)" and "ps \<noteq> []"
  shows "\<exists>s' cs. sjf_execute (sjf_admit st ps) = Inr s'
           \<and> history_completion_ts s' = map Some cs \<and> sorted cs"
proof -
  from sjf_execute_total[OF assms(3,2)]
  obtain s' where ex: "sjf_execute (sjf_admit st ps) = Inr s'" by blast
  from sjf_execute_InrD[OF ex] obtain s1 where s1: "sjf_loop s1 = Inr s'" "history s1 = []"
    "total_t s1 = 0" "store s1 = st" "pending s1 = sort_key (\<lambda>p. arrival_t (st p)) ps"
    by blast
  have start: "\<exists>cs. history_completion_ts s1 = map Some cs \<and> sorted cs
        \<and> (\<forall>c\<in>set cs. c \<le> total_t s1)"
  proof -
    have "history_completion_ts s1 = map Some [] \<and> sorted ([] :: int list)
        \<and> (\<forall>c\<in>set []. c \<le> total_t s1)"
      by (simp add: history_completion_ts_def s1(2))
    then show ?thesis by blast
  qed
  have "\<exists>cs. history_completion_ts s' = map Some cs \<and> sorted cs \<and> (\<forall>c\<in>set cs. c \<le> total_t s')"
    by (rule sjf_loop_clock[OF s1(1) _ _ _ start]) (use assms s1 in simp_all)
  with ex show ?thesis by blast
qed

lemma clock_advances:
  assumes "running s = Some r" and "update_running_process s = Inr s1"
  shows "total_t s1 = total_t s + burst_t (store s r)"
  by (simp add: update_running_process_InrD(1)[OF assms(2,1)])

subsection \<open>Rounding to binary64\<close>

lemma round_half_even_cases:
  assumes "0 < d"
  shows "(2 * (n mod d) \<le> d \<and> round_half_even n d * d - n = - (n mod d)
            \<and> (2 * (n mod d) = d \<longrightarrow> even (round_half_even n d)))
       \<or> (d \<le> 2 * (n mod d) \<and> round_half_even n d * d - n = d - n mod d
            \<and> (2 * (n mod d) = d \<longrightarrow> even (round_half_even n d)))"
proof -
  have a: "(n div d) * d - n = - (n mod d)"
    by (metis add_diff_cancel_left' div_mult_mod_eq minus_diff_eq)
  have b: "(n div d + 1) * d - n = d - n mod d"
    using a by (simp add: algebra_simps)
  show ?thesis
  proof (cases "2 * (n mod d) < d \<or> (2 * (n mod d) = d \<and> even (n div d))")
    case True
    then have "round_half_even n d = n div d" by (auto simp: round_half_even_def Let_def)
    with True a show ?thesis by auto
  next
    case False
    then have "round_half_even n d = n div d + 1" by (auto simp: round_half_even_def Let_def)
    with False b show ?thesis by auto
  qed
qed

lemma round_half_even_near:
  assumes "0 < d"
  shows "\<bar>2 * (round_half_even n d * d - n)\<bar> \<le> d"
proof -
  have "0 \<le> n mod d" "n mod d < d" using assms by simp_all
  with round_half_even_cases[OF assms, of n] show ?thesis by auto
qed

lemma round_half_even_tie:
  assumes "0 < d" and "\<bar>2 * (round_half_even n d * d - n)\<bar> = d"
  shows "even (round_half_even n d)"
proof -
  have "0 \<le> n mod d" "n mod d < d" using assms by simp_all
  with round_half_even_cases[OF assms(1), of n] assms(2) show ?thesis by auto
qed

lemma bitlen_powi_bounds:
  assumes "0 < n"
  shows "(2::rat) powi (bitlen n - 1) \<le> of_int n" and "of_int n < (2::rat) powi (bitlen n)"
proof -
  from bitlen_bounds[OF assms] have a: "2 ^ nat (bitlen n - 1) \<le> n" and b: "n < 2 ^ nat (bitlen n)"
    by simp_all
  have bn: "1 \<le> bitlen n"
    using assms bitlen_eq_zero_iff[of n] bitlen_nonneg[of n] by linarith
  have "(2::rat) powi (bitlen n - 1) = of_int (2 ^ nat (bitlen n - 1))"
    using bn by (simp add: power_int_def)
  also have "\<dots> \<le> of_int n" using a by (simp only: of_int_le_iff)
  finally show "(2::rat) powi (bitlen n - 1) \<le> of_int n" .
  have "(of_int n :: rat) < of_int (2 ^ nat (bitlen n))" using b by (simp only: of_int_less_iff)
  also have "\<dots> = (2::rat) powi (bitlen n)" using bn by (simp add: power_int_def)
  finally show "of_int n < (2::rat) powi (bitlen n)" .
qed

lemma floor_log2_test:
  assumes "0 < n" and "0 < d"
  shows "(if 0 \<le> c then d * 2 ^ nat c \<le> n else d \<le> n * 2 ^ nat (- c))
         \<longleftrightarrow> (2::rat) powi c \<le> of_int n / of_int d"
proof (cases "0 \<le> c")
  case True
  have "d * 2 ^ nat c \<le> n \<longleftrightarrow> (of_int (d * 2 ^ nat c) :: rat) \<le> of_int n"
    by (simp only: of_int_le_iff)
  also have "\<dots> \<longleftrightarrow> (2::rat) ^ nat c \<le> of_int n / of_int d"
    using assms by (simp add: field_simps)
  finally show ?thesis using True by (simp add: power_int_def)
next
  case False
  have "d \<le> n * 2 ^ nat (- c) \<longleftrightarrow> (of_int d :: rat) \<le> of_int (n * 2 ^ nat (- c))"
    by (simp only: of_int_le_iff)
  also have "\<dots> \<longleftrightarrow> (1 / 2 :: rat) ^ nat (- c) \<le> of_int n / of_int d"
    using assms by (simp add: field_simps power_one_over)
  finally show ?thesis using False by (simp add: power_int_def)
qed

lemma floor_log2_bounds:
  assumes "0 < n" and "0 < d"
  shows "(2::rat) powi (floor_log2 n d) \<le> of_int n / of_int d"
    and "of_int n / of_int d < (2::rat) powi (floor_log2 n d + 1)"
proof -
  define c where "c = bitlen n - bitlen d"
  define q :: rat where "q = of_int n / of_int d"
  note bn = bitlen_powi_bounds[OF assms(1)] and bd = bitlen_powi_bounds[OF assms(2)]
  have dpos: "(0::rat) < of_int d" and npos: "(0::rat) < of_int n" using assms by simp_all
  have up: "q < 2 powi (c + 1)"
  proof -
    have "q < 2 powi (bitlen n) / 2 powi (bitlen d - 1)"
      unfolding q_def using bn(2) bd(1) dpos npos
      by (intro frac_less) (simp_all add: less_imp_le)
    also have "\<dots> = 2 powi (bitlen n - (bitlen d - 1))"
      by (rule power_int_diff[symmetric]) simp
    also have "bitlen n - (bitlen d - 1) = c + 1" by (simp add: c_def)
    finally show ?thesis .
  qed
  have lo: "2 powi (c - 1) \<le> q"
  proof -
    have "2 powi (bitlen n - 1) / 2 powi (bitlen d) \<le> q"
      unfolding q_def using bn(1) bd(2) dpos npos
      by (intro frac_le) (simp_all add: less_imp_le)
    moreover have "(2::rat) powi (bitlen n - 1) / 2 powi (bitlen d)
        = 2 powi (bitlen n - 1 - bitlen d)"
      by (rule power_int_diff[symmetric]) simp
    moreover have "bitlen n - 1 - bitlen d = c - 1" by (simp add: c_def)
    ultimately show ?thesis by simp
  qed
  have e: "floor_log2 n d = (if 2 powi c \<le> q then c else c - 1)"
    unfolding floor_log2_def Let_def c_def[symmetric] q_def
    using floor_log2_test[OF assms, of c] by simp
  show "(2::rat) powi (floor_log2 n d) \<le> of_int n / of_int d"
    using lo e by (auto simp: q_def)
  show "of_int n / of_int d < (2::rat) powi (floor_log2 n d + 1)"
    using up e by (auto simp: q_def)
qed

lemma round_half_even_rat:
  assumes "0 < D"
  shows "\<bar>of_int (round_half_even N D) - of_int N / of_int D\<bar> \<le> (1 / 2 :: rat)"
    and "\<bar>of_int (round_half_even N D) - of_int N / of_int D\<bar> = (1 / 2 :: rat)
         \<Longrightarrow> even (round_half_even N D)"
proof -
  define m where "m = round_half_even N D"
  define t where "t = \<bar>2 * (m * D - N)\<bar>"
  have Dpos: "(0::rat) < of_int D" using assms by simp
  have "of_int m - of_int N / of_int D = (of_int (m * D - N) :: rat) / of_int D"
    using Dpos by (simp add: field_simps)
  then have "\<bar>of_int m - of_int N / of_int D\<bar> = (of_int \<bar>m * D - N\<bar> :: rat) / of_int D"
    using Dpos by (simp add: abs_divide del: of_int_diff of_int_mult)
  also have "\<dots> = (of_int t :: rat) / (2 * of_int D)"
  proof -
    have "t = 2 * \<bar>m * D - N\<bar>" unfolding t_def by (subst abs_mult) simp
    then have "(of_int t :: rat) = 2 * of_int \<bar>m * D - N\<bar>" by simp
    then show ?thesis by simp
  qed
  finally have eq: "\<bar>of_int m - of_int N / of_int D\<bar> = (of_int t :: rat) / (2 * of_int D)" .
  have "t \<le> D" unfolding t_def m_def by (rule round_half_even_near[OF assms])
  then have "(of_int t :: rat) \<le> of_int D" by (simp only: of_int_le_iff)
  then show "\<bar>of_int (round_half_even N D) - of_int N / of_int D\<bar> \<le> (1 / 2 :: rat)"
    using Dpos unfolding m_def[symmetric] eq by (simp add: field_simps)
  assume "\<bar>of_int (round_half_even N D) - of_int N / of_int D\<bar> = (1 / 2 :: rat)"
  then have "(of_int t :: rat) = of_int D"
    using Dpos unfolding m_def[symmetric] eq by (simp add: field_simps)
  then have "t = D" by (simp only: of_int_eq_iff)
  then show "even (round_half_even N D)"
    unfolding t_def m_def by (rule round_half_even_tie[OF assms])
qed

lemma binary64_round_near:
  assumes "0 < n" and "0 < d" and "binary64_round n d = (m, k)"
  shows "k = max (floor_log2 n d) (- 1022) - 52"
    and "\<bar>of_int m - (of_int n / of_int d) / 2 powi k\<bar> \<le> (1 / 2 :: rat)"
    and "\<bar>of_int m - (of_int n / of_int d) / 2 powi k\<bar> = (1 / 2 :: rat) \<Longrightarrow> even m"
proof -
  show k: "k = max (floor_log2 n d) (- 1022) - 52"
    using assms(3) by (simp add: binary64_round_def Let_def)
  define N where "N = (if 0 \<le> k then n else n * 2 ^ nat (- k))"
  define D where "D = (if 0 \<le> k then d * 2 ^ nat k else d)"
  have m: "m = round_half_even N D"
    using assms(3) by (auto simp: binary64_round_def Let_def N_def D_def)
  have D: "0 < D" using assms(2) by (simp add: D_def)
  have q: "(of_int N :: rat) / of_int D = (of_int n / of_int d) / 2 powi k"
    using assms(1,2) by (simp add: N_def D_def power_int_def field_simps power_one_over)
  show "\<bar>of_int m - (of_int n / of_int d) / 2 powi k\<bar> \<le> (1 / 2 :: rat)"
    using round_half_even_rat(1)[OF D, of N] by (simp only: m q)
  show "even m" if "\<bar>of_int m - (of_int n / of_int d) / 2 powi k\<bar> = (1 / 2 :: rat)"
    using round_half_even_rat(2)[OF D, of N] that by (simp only: m q)
qed

lemma binary64_round_rounds_to:
  assumes "0 < n" and "0 < d" and "binary64_round n d = (m, k)"
  shows "rounds_to (of_int n / of_int d) m k"
  unfolding rounds_to_def
  using floor_log2_bounds[OF assms(1,2)] binary64_round_near[OF assms]
  by (intro exI[of _ "floor_log2 n d"]) simp

lemma rounds_to_near:
  assumes "rounds_to q m k"
  shows "\<bar>of_int m * 2 powi k - q\<bar> \<le> 2 powi k / 2"
proof -
  have g: "(0::rat) < 2 powi k" by simp
  from assms have "\<bar>of_int m - q / 2 powi k\<bar> \<le> 1 / 2" by (auto simp: rounds_to_def)
  then have "\<bar>of_int m - q / 2 powi k\<bar> * 2 powi k \<le> 1 / 2 * 2 powi k"
    using g by (intro mult_right_mono) simp_all
  moreover have "\<bar>of_int m - q / 2 powi k\<bar> * 2 powi k = \<bar>of_int m * 2 powi k - q\<bar>"
  proof -
    have "\<bar>of_int m - q / 2 powi k\<bar> * 2 powi k = \<bar>(of_int m - q / 2 powi k) * 2 powi k\<bar>"
      using g by (simp add: abs_mult)
    also have "(of_int m - q / 2 powi k) * 2 powi k = of_int m * 2 powi k - q"
      using g by (simp add: field_simps)
    finally show ?thesis .
  qed
  ultimately show ?thesis by simp
qed

lemma round_upper:
  fixes m c :: int and x :: rat
  assumes "\<bar>of_int m - x\<bar> \<le> 1 / 2" and "x < of_int c"
  shows "m \<le> c"
proof -
  from assms have "(of_int m :: rat) < of_int c + 1" by linarith
  then have "(of_int m :: rat) < of_int (c + 1)" by simp
  then have "m < c + 1" by (simp only: of_int_less_iff)
  then show ?thesis by simp
qed

lemma round_lower:
  fixes m c :: int and x :: rat
  assumes "\<bar>of_int m - x\<bar> \<le> 1 / 2" and "of_int c \<le> x"
  shows "c \<le> m"
proof -
  from assms have "(of_int c :: rat) - 1 < of_int m" by linarith
  then have "(of_int (c - 1) :: rat) < of_int m" by simp
  then have "c - 1 < m" by (simp only: of_int_less_iff)
  then show ?thesis by simp
qed

lemma rounds_to_mantissa:
  assumes "rounds_to q m k"
  shows "0 \<le> m" and "m \<le> 2 ^ 53"
    and "- 1074 \<le> k"
    and "- 1074 < k \<Longrightarrow> 2 ^ 52 \<le> m \<and> 2 powi (k + 52) \<le> q \<and> q < 2 powi (k + 53)"
proof -
  from assms obtain e where e: "2 powi e \<le> q" "q < 2 powi (e + 1)"
    and k: "k = max e (- 1022) - 52" and r: "\<bar>of_int m - q / 2 powi k\<bar> \<le> 1 / 2"
    by (auto simp: rounds_to_def)
  have g: "(0::rat) < 2 powi k" by simp
  have qpos: "0 < q" using e(1) by (rule less_le_trans[rotated]) simp
  show "- 1074 \<le> k" using k by simp
  have "q / 2 powi k < 2 powi (e + 1) / 2 powi k"
    using e(2) g by (simp add: divide_strict_right_mono)
  also have "\<dots> = 2 powi (e + 1 - k)" by (rule power_int_diff[symmetric]) simp
  also have "\<dots> \<le> 2 powi 53" using k by (intro power_int_increasing) simp_all
  finally have up: "q / 2 powi k < 2 ^ 53" by simp
  then have "q / 2 powi k < of_int (2 ^ 53)" by simp
  with r show "m \<le> 2 ^ 53" by (rule round_upper)
  have "of_int 0 \<le> q / 2 powi k" using qpos g by simp
  with r show "0 \<le> m" by (rule round_lower)
  show "2 ^ 52 \<le> m \<and> 2 powi (k + 52) \<le> q \<and> q < 2 powi (k + 53)" if "- 1074 < k"
  proof -
    from that k have ke: "e = k + 52" by simp
    have "(2::rat) powi 52 = 2 powi (e - k)" using ke by simp
    also have "\<dots> = 2 powi e / 2 powi k" by (rule power_int_diff) simp
    also have "\<dots> \<le> q / 2 powi k" using e(1) g by (simp add: divide_right_mono)
    finally have "of_int (2 ^ 52) \<le> q / 2 powi k" by simp
    with r have "2 ^ 52 \<le> m" by (rule round_lower)
    moreover have "q < 2 powi (k + 53)" using e(2) ke by (simp add: ac_simps)
    moreover have "2 powi (k + 52) \<le> q" using e(1) ke by simp
    ultimately show ?thesis by simp
  qed
qed

lemma powi2_mult:
  assumes "a + b = c"
  shows "(2::rat) powi a * 2 powi b = 2 powi c"
proof -
  have "(2::rat) powi (a + b) = 2 powi a * 2 powi b" by (rule power_int_add) simp
  with assms show ?thesis by simp
qed

lemma rounds_to_grid_nearest:
  assumes "rounds_to q m k"
  shows "\<bar>of_int m * 2 powi k - q\<bar> \<le> \<bar>of_int j * 2 powi k - q\<bar>"
proof (cases "j = m")
  case True
  then show ?thesis by simp
next
  case False
  define g :: rat where "g = 2 powi k"
  have g: "0 < g" by (simp add: g_def)
  have near: "\<bar>of_int m * g - q\<bar> \<le> g / 2"
    using rounds_to_near[OF assms] by (simp add: g_def)
  from False have "1 \<le> \<bar>j - m\<bar>" by simp
  then have "(of_int 1 :: rat) \<le> of_int \<bar>j - m\<bar>" by (simp only: of_int_le_iff)
  then have "(1::rat) \<le> \<bar>of_int j - of_int m\<bar>" by simp
  then have "1 * g \<le> \<bar>of_int j - of_int m\<bar> * g" using g by (intro mult_right_mono) simp_all
  also have "\<bar>of_int j - of_int m\<bar> * g = \<bar>of_int j * g - of_int m * g\<bar>"
  proof -
    have "\<bar>of_int j - of_int m\<bar> * g = \<bar>(of_int j - of_int m) * g\<bar>"
      using g by (simp add: abs_mult)
    then show ?thesis by (simp add: algebra_simps)
  qed
  finally have far: "g \<le> \<bar>of_int j * g - of_int m * g\<bar>" by simp
  have "\<bar>of_int m * g - q\<bar> \<le> \<bar>of_int j * g - q\<bar>" using near far by linarith
  then show ?thesis by (simp add: g_def)
qed

lemma rounds_to_nearest:
  assumes "rounds_to q m k" and "binary64 x"
  shows "\<bar>of_int m * 2 powi k - q\<bar> \<le> \<bar>x - q\<bar>"
proof -
  from assms(2) obtain m' k' where m': "\<bar>m'\<bar> < 2 ^ 53" and k': "- 1074 \<le> k'" "k' \<le> 971"
    and x: "x = of_int m' * 2 powi k'" by (auto simp: binary64_def)
  show ?thesis
  proof (cases "k \<le> k'")
    case True
    have "(2::rat) powi k' = 2 powi (k' - k) * 2 powi k"
      by (rule powi2_mult[symmetric]) simp
    also have "(2::rat) powi (k' - k) = of_int (2 ^ nat (k' - k))"
      using True by (simp add: power_int_def)
    finally have "x = of_int (m' * 2 ^ nat (k' - k)) * 2 powi k"
      by (simp add: x)
    then show ?thesis using rounds_to_grid_nearest[OF assms(1), of "m' * 2 ^ nat (k' - k)"]
      by simp
  next
    case False
    then have "- 1074 < k" using k' by simp
    from rounds_to_mantissa(4)[OF assms(1) this] have lo: "2 powi (k + 52) \<le> q" by simp
    have "(of_int \<bar>m'\<bar> :: rat) < of_int (2 ^ 53)" using m' by (simp only: of_int_less_iff)
    then have am: "\<bar>of_int m' :: rat\<bar> < 2 powi 53" by simp
    have "(2::rat) powi k' \<le> 2 powi (k - 1)" using False by (intro power_int_increasing) simp_all
    then have "\<bar>of_int m'\<bar> * (2::rat) powi k' \<le> \<bar>of_int m'\<bar> * 2 powi (k - 1)"
      by (intro mult_left_mono) simp_all
    also have "\<dots> < 2 powi 53 * 2 powi (k - 1)"
      using am by (intro mult_strict_right_mono) simp_all
    also have "\<dots> = 2 powi (k + 52)"
      by (rule powi2_mult) simp
    finally have "\<bar>x\<bar> < 2 powi (k + 52)" by (simp add: x abs_mult)
    moreover have "\<bar>of_int m * 2 powi k - q\<bar> \<le> \<bar>2 powi (k + 52) - q\<bar>"
    proof -
      have "(2::rat) powi 52 * 2 powi k = 2 powi (k + 52)"
        by (rule powi2_mult) simp
      then have "(2::rat) powi (k + 52) = of_int (2 ^ 52) * 2 powi k" by simp
      then show ?thesis using rounds_to_grid_nearest[OF assms(1), of "2 ^ 52"] by simp
    qed
    ultimately show ?thesis using lo by linarith
  qed
qed

lemma rounds_to_representable:
  assumes "rounds_to q m k" and "of_int m * 2 powi k < (2::rat) ^ 1024"
  shows "binary64 (of_int m * 2 powi k)"
proof (cases "m = 2 ^ 53")
  case True
  have "k + 1 \<le> 971"
  proof (rule ccontr)
    assume "\<not> k + 1 \<le> 971"
    then have "(2::rat) powi 971 \<le> 2 powi k" by (intro power_int_increasing) simp_all
    then have "(2::rat) powi 53 * 2 powi 971 \<le> 2 powi 53 * 2 powi k"
      by (intro mult_left_mono) simp_all
    moreover have "(2::rat) powi 53 * 2 powi 971 = 2 powi 1024"
      by (rule powi2_mult) simp
    ultimately show False using assms(2) True by simp
  qed
  moreover have "of_int m * (2::rat) powi k = of_int (2 ^ 52) * 2 powi (k + 1)"
  proof -
    have "(2::rat) powi k * 2 powi 1 = 2 powi (k + 1)" by (rule powi2_mult) simp
    then show ?thesis using True by simp
  qed
  moreover have "- 1074 \<le> k + 1" using rounds_to_mantissa(3)[OF assms(1)] by simp
  moreover have "\<bar>2 ^ 52 :: int\<bar> < 2 ^ 53" by simp
  ultimately show ?thesis unfolding binary64_def by blast
next
  case False
  with rounds_to_mantissa(1,2)[OF assms(1)] have m: "\<bar>m\<bar> < 2 ^ 53" by simp
  have "k \<le> 971"
  proof (rule ccontr)
    assume c: "\<not> k \<le> 971"
    then have "- 1074 < k" by simp
    from rounds_to_mantissa(4)[OF assms(1) this] have "2 ^ 52 \<le> m" by simp
    then have "(of_int (2 ^ 52) :: rat) \<le> of_int m" by (simp only: of_int_le_iff)
    then have m52: "(2::rat) powi 52 \<le> of_int m" by simp
    from c have "(2::rat) powi 972 \<le> 2 powi k" by (intro power_int_increasing) simp_all
    with m52 have "(2::rat) powi 52 * 2 powi 972 \<le> of_int m * 2 powi k"
      by (intro mult_mono) simp_all
    moreover have "(2::rat) powi 52 * 2 powi 972 = 2 powi 1024"
      by (rule powi2_mult) simp
    ultimately show False using assms(2) by simp
  qed
  with m rounds_to_mantissa(3)[OF assms(1)] show ?thesis unfolding binary64_def by blast
qed

lemma rounds_to_upper:
  assumes "rounds_to q m k"
  shows "q < 2 powi (k + 53)"
proof -
  from assms obtain e where e: "q < 2 powi (e + 1)" and k: "k = max e (- 1022) - 52"
    by (auto simp: rounds_to_def)
  have "(2::rat) powi (e + 1) \<le> 2 powi (k + 53)"
    using k by (intro power_int_increasing) simp_all
  with e show ?thesis by simp
qed

lemma rounds_to_tie:
  assumes "rounds_to q m k" and "\<bar>of_int m - q / 2 powi k\<bar> = 1 / 2"
  shows "even m"
  using assms by (auto simp: rounds_to_def)

lemma rounds_to_half:
  assumes "rounds_to q m k"
  shows "\<bar>of_int m - q / 2 powi k\<bar> \<le> 1 / 2"
  using assms by (auto simp: rounds_to_def)

lemma rounds_to_overflow_iff:
  assumes "rounds_to q m k"
  shows "(2::rat) ^ 1024 \<le> of_int m * 2 powi k \<longleftrightarrow> 2 ^ 1024 - 2 ^ 970 \<le> q"
proof
  assume v: "(2::rat) ^ 1024 \<le> of_int m * 2 powi k"
  note near = rounds_to_near[OF assms]
  show "2 ^ 1024 - 2 ^ 970 \<le> q"
  proof (cases "k \<le> 971")
    case True
    then have "(2::rat) powi k \<le> 2 powi 971" by (intro power_int_increasing) simp_all
    moreover have "(2::rat) powi 971 = 2 * 2 ^ 970" by simp
    ultimately have "(2::rat) powi k / 2 \<le> 2 ^ 970" by simp
    with near v show ?thesis by linarith
  next
    case False
    then have "- 1074 < k" by simp
    from rounds_to_mantissa(4)[OF assms this] have "2 powi (k + 52) \<le> q" by simp
    moreover have "(2::rat) powi 1024 \<le> 2 powi (k + 52)"
      using False by (intro power_int_increasing) simp_all
    ultimately have "(2::rat) ^ 1024 \<le> q" by simp
    moreover have "(0::rat) \<le> 2 ^ 970" by simp
    ultimately show ?thesis by linarith
  qed
next
  assume q: "2 ^ 1024 - 2 ^ 970 \<le> q"
  have "(2::rat) ^ 1024 = 2 ^ 54 * 2 ^ 970" by (simp flip: power_add)
  moreover have "(2::rat) ^ 1023 = 2 ^ 53 * 2 ^ 970" by (simp flip: power_add)
  moreover have "(0::rat) < 2 ^ 970" by simp
  ultimately have big: "(2::rat) powi 1023 \<le> q" using q
    by (simp add: power_int_def)
  have k971: "971 \<le> k"
  proof (rule ccontr)
    assume "\<not> 971 \<le> k"
    then have "(2::rat) powi (k + 53) \<le> 2 powi 1023" by (intro power_int_increasing) simp_all
    with rounds_to_upper[OF assms] big show False by simp
  qed
  then have "- 1074 < k" by simp
  from rounds_to_mantissa(4)[OF assms this] have "2 ^ 52 \<le> m" by simp
  then have "(of_int (2 ^ 52) :: rat) \<le> of_int m" by (simp only: of_int_le_iff)
  then have m52: "(2::rat) powi 52 \<le> of_int m" by simp
  show "(2::rat) ^ 1024 \<le> of_int m * 2 powi k"
  proof (cases "k = 971")
    case False
    with k971 have "(2::rat) powi 972 \<le> 2 powi k" by (intro power_int_increasing) simp_all
    with m52 have "(2::rat) powi 52 * 2 powi 972 \<le> of_int m * 2 powi k"
      by (intro mult_mono) simp_all
    moreover have "(2::rat) powi 52 * 2 powi 972 = 2 powi 1024" by (rule powi2_mult) simp
    ultimately show ?thesis by simp
  next
    case True
    define x where "x = q / (2::rat) powi k"
    have "(2 ^ 1024 - 2 ^ 970) / (2::rat) powi 971 \<le> q / 2 powi 971"
      using q by (intro divide_right_mono) simp_all
    moreover have "(2 ^ 1024 - 2 ^ 970) / (2::rat) powi 971 = 2 ^ 53 - 1 / 2"
      by (simp add: diff_divide_distrib)
    moreover have "q / 2 powi 971 = x" using True by (simp add: x_def)
    ultimately have lo: "2 ^ 53 - 1 / 2 \<le> x" by (simp only:)
    have half: "\<bar>of_int m - x\<bar> \<le> 1 / 2"
      unfolding x_def by (rule rounds_to_half[OF assms])
    have c: "(of_int (2 ^ 53 - 1) :: rat) = 2 ^ 53 - 1" by simp
    have "of_int (2 ^ 53 - 1) \<le> x" unfolding c using lo by linarith
    with half have m1: "2 ^ 53 - 1 \<le> m" by (rule round_lower)
    have "m \<noteq> 2 ^ 53 - 1"
    proof
      assume eq: "m = 2 ^ 53 - 1"
      then have "(of_int m :: rat) = 2 ^ 53 - 1" by simp
      with lo half have "\<bar>of_int m - x\<bar> = 1 / 2" by linarith
      from rounds_to_tie[OF assms this[unfolded x_def]] eq show False by simp
    qed
    with m1 have "2 ^ 53 \<le> m" by simp
    then have "(of_int (2 ^ 53) :: rat) \<le> of_int m" by (simp only: of_int_le_iff)
    then have "(2::rat) powi 53 \<le> of_int m" by simp
    then have "(2::rat) powi 53 * 2 powi 971 \<le> of_int m * 2 powi k"
      using True by (intro mult_mono) simp_all
    moreover have "(2::rat) powi 53 * 2 powi 971 = 2 powi 1024" by (rule powi2_mult) simp
    ultimately show ?thesis by simp
  qed
qed

lemma rounds_to_overflow_test:
  assumes "rounds_to q m k"
  shows "971 < k \<or> (k = 971 \<and> 2 ^ 53 \<le> m) \<longleftrightarrow> (2::rat) ^ 1024 \<le> of_int m * 2 powi k"
proof
  assume t: "971 < k \<or> (k = 971 \<and> 2 ^ 53 \<le> m)"
  then have "- 1074 < k" by auto
  from rounds_to_mantissa(4)[OF assms this] have "2 ^ 52 \<le> m" by simp
  then have "(of_int (2 ^ 52) :: rat) \<le> of_int m" by (simp only: of_int_le_iff)
  then have m52: "(2::rat) powi 52 \<le> of_int m" by simp
  from t show "(2::rat) ^ 1024 \<le> of_int m * 2 powi k"
  proof
    assume "971 < k"
    then have "(2::rat) powi 972 \<le> 2 powi k" by (intro power_int_increasing) simp_all
    with m52 have "(2::rat) powi 52 * 2 powi 972 \<le> of_int m * 2 powi k"
      by (intro mult_mono) simp_all
    moreover have "(2::rat) powi 52 * 2 powi 972 = 2 powi 1024" by (rule powi2_mult) simp
    ultimately show ?thesis by simp
  next
    assume a: "k = 971 \<and> 2 ^ 53 \<le> m"
    then have "(of_int (2 ^ 53) :: rat) \<le> of_int m" by (simp only: of_int_le_iff)
    then have "(2::rat) powi 53 \<le> of_int m" by simp
    then have "(2::rat) powi 53 * 2 powi 971 \<le> of_int m * 2 powi k"
      using a by (intro mult_mono) simp_all
    moreover have "(2::rat) powi 53 * 2 powi 971 = 2 powi 1024" by (rule powi2_mult) simp
    ultimately show ?thesis by simp
  qed
next
  assume v: "(2::rat) ^ 1024 \<le> of_int m * 2 powi k"
  have mpos: "(0::rat) \<le> of_int m" using rounds_to_mantissa(1)[OF assms] by simp
  have "971 \<le> k"
  proof (rule ccontr)
    assume "\<not> 971 \<le> k"
    then have "(2::rat) powi k \<le> 2 powi 970" by (intro power_int_increasing) simp_all
    moreover have "(of_int m :: rat) \<le> of_int (2 ^ 53)"
      using rounds_to_mantissa(2)[OF assms] by (simp only: of_int_le_iff)
    then have "(of_int m :: rat) \<le> 2 powi 53" by simp
    ultimately have "of_int m * (2::rat) powi k \<le> 2 powi 53 * 2 powi 970"
      using mpos by (intro mult_mono) simp_all
    moreover have "(2::rat) powi 53 * 2 powi 970 = 2 powi 1023" by (rule powi2_mult) simp
    moreover have "(2::rat) ^ 1023 < 2 ^ 1024" by (rule power_strict_increasing) simp_all
    ultimately show False using v by simp
  qed
  moreover have "2 ^ 53 \<le> m" if "k = 971"
  proof (rule ccontr)
    assume "\<not> 2 ^ 53 \<le> m"
    then have "m \<le> 2 ^ 53 - 1" by simp
    then have "(of_int m :: rat) \<le> of_int (2 ^ 53 - 1)" by (simp only: of_int_le_iff)
    then have "(of_int m :: rat) * 2 powi 971 \<le> of_int (2 ^ 53 - 1) * 2 powi 971"
      by (intro mult_right_mono) simp_all
    moreover have "(of_int (2 ^ 53 - 1) :: rat) * 2 powi 971 = 2 powi 53 * 2 powi 971 - 2 powi 971"
      by (simp add: algebra_simps)
    moreover have "(2::rat) powi 53 * 2 powi 971 = 2 powi 1024" by (rule powi2_mult) simp
    moreover have "(0::rat) < 2 powi 971" by simp
    ultimately have "(of_int m :: rat) * 2 powi 971 < 2 powi 1024" by linarith
    with v that show False by simp
  qed
  ultimately show "971 < k \<or> (k = 971 \<and> 2 ^ 53 \<le> m)" by auto
qed

lemma binary64_zero: "binary64 0"
proof -
  have "\<bar>0::int\<bar> < 2 ^ 53 \<and> - 1074 \<le> (0::int) \<and> (0::int) \<le> 971
        \<and> (0::rat) = of_int 0 * 2 powi 0" by simp
  then show ?thesis unfolding binary64_def by blast
qed

lemma binary64_minus: "binary64 (- x) \<longleftrightarrow> binary64 x"
proof -
  have "binary64 (- y)" if "binary64 y" for y
  proof -
    from that obtain m k where "\<bar>m\<bar> < 2 ^ 53" "- 1074 \<le> k" "k \<le> 971"
      "y = of_int m * 2 powi k" by (auto simp: binary64_def)
    then have "\<bar>- m\<bar> < 2 ^ 53 \<and> - 1074 \<le> k \<and> k \<le> 971 \<and> - y = of_int (- m) * 2 powi k"
      by simp
    then show ?thesis unfolding binary64_def by blast
  qed
  from this[of x] this[of "- x"] show ?thesis by auto
qed

lemma nearest_binary64_zero: "nearest_binary64 0 0"
  unfolding nearest_binary64_def using binary64_zero by auto

text \<open>Ties: another binary64 number as near as the rounded one is its neighbour.\<close>

lemma rounds_to_off_grid:
  assumes "rounds_to q m k" and "binary64 x"
  shows "(\<exists>j. x = of_int j * 2 powi k) \<or> \<bar>of_int m * 2 powi k - q\<bar> < \<bar>x - q\<bar>"
proof -
  from assms(2) obtain m' k' where m': "\<bar>m'\<bar> < 2 ^ 53" and k': "- 1074 \<le> k'" "k' \<le> 971"
    and x: "x = of_int m' * 2 powi k'" by (auto simp: binary64_def)
  show ?thesis
  proof (cases "k \<le> k'")
    case True
    have "(2::rat) powi k' = 2 powi (k' - k) * 2 powi k"
      by (rule powi2_mult[symmetric]) simp
    also have "(2::rat) powi (k' - k) = of_int (2 ^ nat (k' - k))"
      using True by (simp add: power_int_def)
    finally have "x = of_int (m' * 2 ^ nat (k' - k)) * 2 powi k"
      by (simp add: x)
    then show ?thesis by blast
  next
    case False
    then have "- 1074 < k" using k' by simp
    from rounds_to_mantissa(4)[OF assms(1) this] have lo: "2 powi (k + 52) \<le> q" by simp
    have "(of_int \<bar>m'\<bar> :: rat) < of_int (2 ^ 53)" using m' by (simp only: of_int_less_iff)
    then have am: "\<bar>of_int m' :: rat\<bar> < 2 powi 53" by simp
    have "(2::rat) powi k' \<le> 2 powi (k - 1)" using False by (intro power_int_increasing) simp_all
    then have "\<bar>of_int m'\<bar> * (2::rat) powi k' \<le> \<bar>of_int m'\<bar> * 2 powi (k - 1)"
      by (intro mult_left_mono) simp_all
    also have "\<dots> < 2 powi 53 * 2 powi (k - 1)"
      using am by (intro mult_strict_right_mono) simp_all
    also have "\<dots> = 2 powi (k + 52)"
      by (rule powi2_mult) simp
    finally have "\<bar>x\<bar> < 2 powi (k + 52)" by (simp add: x abs_mult)
    moreover have "\<bar>of_int m * 2 powi k - q\<bar> \<le> \<bar>2 powi (k + 52) - q\<bar>"
    proof -
      have "(2::rat) powi 52 * 2 powi k = 2 powi (k + 52)"
        by (rule powi2_mult) simp
      then have "(2::rat) powi (k + 52) = of_int (2 ^ 52) * 2 powi k" by simp
      then show ?thesis using rounds_to_grid_nearest[OF assms(1), of "2 ^ 52"] by simp
    qed
    ultimately have "\<bar>of_int m * 2 powi k - q\<bar> < \<bar>x - q\<bar>" using lo by linarith
    then show ?thesis by blast
  qed
qed

lemma rounds_to_tie_even:
  assumes "rounds_to q m k" and "binary64 y" and "y \<noteq> of_int m * 2 powi k"
    and "\<bar>y - q\<bar> = \<bar>of_int m * 2 powi k - q\<bar>"
  shows "\<exists>j. of_int m * 2 powi k = of_int (2 * j) * \<bar>y - of_int m * 2 powi k\<bar>"
proof -
  define g :: rat where "g = 2 powi k"
  have g: "0 < g" by (simp add: g_def)
  from rounds_to_off_grid[OF assms(1,2)] assms(4) obtain j' where y: "y = of_int j' * g"
    unfolding g_def by auto
  have near: "\<bar>of_int m * g - q\<bar> \<le> g / 2"
    using rounds_to_near[OF assms(1)] by (simp add: g_def)
  from assms(3) y have "j' \<noteq> m" by (auto simp: g_def)
  then have "1 \<le> \<bar>j' - m\<bar>" by simp
  then have "(of_int 1 :: rat) \<le> of_int \<bar>j' - m\<bar>" by (simp only: of_int_le_iff)
  then have "(1::rat) \<le> \<bar>of_int j' - of_int m\<bar>" by simp
  then have "1 * g \<le> \<bar>of_int j' - of_int m\<bar> * g" using g by (intro mult_right_mono) simp_all
  also have "\<bar>of_int j' - of_int m\<bar> * g = \<bar>of_int j' * g - of_int m * g\<bar>"
  proof -
    have "\<bar>of_int j' - of_int m\<bar> * g = \<bar>(of_int j' - of_int m) * g\<bar>"
      using g by (simp add: abs_mult)
    then show ?thesis by (simp add: algebra_simps)
  qed
  finally have far: "g \<le> \<bar>y - of_int m * g\<bar>" by (simp add: y)
  have tie: "\<bar>y - q\<bar> = \<bar>of_int m * g - q\<bar>" using assms(4) by (simp add: g_def)
  from far near tie have dist: "\<bar>y - of_int m * g\<bar> = g" and half: "\<bar>of_int m * g - q\<bar> = g / 2"
    by linarith+
  have "\<bar>of_int m - q / g\<bar> = \<bar>(of_int m * g - q) / g\<bar>"
    using g by (simp add: field_simps)
  also have "\<dots> = \<bar>of_int m * g - q\<bar> / g" using g by (simp add: abs_divide)
  also have "\<dots> = 1 / 2" using g by (simp add: half)
  finally have "\<bar>of_int m - q / 2 powi k\<bar> = 1 / 2" by (simp add: g_def)
  from rounds_to_tie[OF assms(1) this] obtain j where "m = 2 * j" by (auto elim: evenE)
  with dist have "of_int m * g = of_int (2 * j) * \<bar>y - of_int m * g\<bar>" by simp
  then show ?thesis unfolding g_def by blast
qed

lemma rounds_to_nearest_binary64:
  assumes "rounds_to q m k" and "of_int m * 2 powi k < (2::rat) ^ 1024"
  shows "nearest_binary64 q (of_int m * 2 powi k)"
  unfolding nearest_binary64_def
  using rounds_to_representable[OF assms] rounds_to_nearest[OF assms(1)]
    rounds_to_tie_even[OF assms(1)]
  by blast

lemma nearest_binary64_unique:
  assumes "nearest_binary64 q v" and "nearest_binary64 q w"
  shows "v = w"
proof (rule ccontr)
  assume ne: "v \<noteq> w"
  from assms have "\<bar>v - q\<bar> \<le> \<bar>w - q\<bar>" "\<bar>w - q\<bar> \<le> \<bar>v - q\<bar>" and b: "binary64 v" "binary64 w"
    unfolding nearest_binary64_def by blast+
  then have tie: "\<bar>w - q\<bar> = \<bar>v - q\<bar>" by simp
  from assms(1) b(2) ne tie obtain j where v: "v = of_int (2 * j) * \<bar>w - v\<bar>"
    unfolding nearest_binary64_def by metis
  from assms(2) b(1) ne tie obtain i where w: "w = of_int (2 * i) * \<bar>v - w\<bar>"
    unfolding nearest_binary64_def by metis
  define d where "d = \<bar>w - v\<bar>"
  have d: "0 < d" using ne by (simp add: d_def)
  have "\<bar>v - w\<bar> = d" by (simp add: d_def abs_minus_commute)
  with v w have "v = of_int (2 * j) * d" "w = of_int (2 * i) * d" by (simp_all add: d_def)
  then have "w - v = of_int (2 * (i - j)) * d" by (simp add: algebra_simps)
  then have "\<bar>w - v\<bar> = \<bar>of_int (2 * (i - j)) :: rat\<bar> * \<bar>d\<bar>" by (simp only: abs_mult)
  then have "1 * d = \<bar>of_int (2 * (i - j)) :: rat\<bar> * d" using d by (simp add: d_def)
  then have "\<bar>of_int (2 * (i - j)) :: rat\<bar> = 1" using d by (simp only: mult_right_cancel)
  then have "(of_int \<bar>2 * (i - j)\<bar> :: rat) = of_int 1" by (simp only: of_int_abs of_int_1)
  then have "\<bar>2 * (i - j)\<bar> = 1" by (simp only: of_int_eq_iff)
  then show False by presburger
qed

lemma nearest_binary64_minus:
  "nearest_binary64 (- q) (- v) \<longleftrightarrow> nearest_binary64 q v"
proof -
  have "nearest_binary64 (- p) (- u)" if n: "nearest_binary64 p u" for p u
    unfolding nearest_binary64_def
  proof (intro conjI allI impI)
    from n show "binary64 (- u)" by (simp add: nearest_binary64_def binary64_minus)
  next
    fix y assume "binary64 y"
    then have "binary64 (- y)" by (simp add: binary64_minus)
    with n have "\<bar>u - p\<bar> \<le> \<bar>- y - p\<bar>" unfolding nearest_binary64_def by blast
    then show "\<bar>- u - - p\<bar> \<le> \<bar>y - - p\<bar>" by linarith
  next
    fix y assume y: "binary64 y \<and> y \<noteq> - u \<and> \<bar>y - - p\<bar> = \<bar>- u - - p\<bar>"
    then have "binary64 (- y) \<and> - y \<noteq> u \<and> \<bar>- y - p\<bar> = \<bar>u - p\<bar>"
      by (auto simp: binary64_minus)
    with n obtain j where "u = of_int (2 * j) * \<bar>- y - u\<bar>"
      unfolding nearest_binary64_def by blast
    moreover have "\<bar>- y - u\<bar> = \<bar>y - - u\<bar>" by linarith
    ultimately have "- u = of_int (2 * (- j)) * \<bar>y - - u\<bar>" by simp
    then show "\<exists>j. - u = of_int (2 * j) * \<bar>y - - u\<bar>" by blast
  qed
  from this[of q v] this[of "- q" "- v"] show ?thesis by auto
qed

text \<open>The magnitude that \<open>py_truediv\<close> returns for a non-zero dividend.\<close>

lemma py_truediv_rounds:
  assumes "b \<noteq> 0" and "a \<noteq> 0"
  shows "\<exists>m k. rounds_to \<bar>of_int a / of_int b\<bar> m k
           \<and> py_truediv a b =
               (if 2 ^ 1024 \<le> of_int m * (2::rat) powi k then Inl OverflowError
                else Inr (PyFloat ((a < 0) \<noteq> (b < 0)) (of_int m * 2 powi k)))"
proof -
  obtain m k where mk: "binary64_round \<bar>a\<bar> \<bar>b\<bar> = (m, k)" by (cases "binary64_round \<bar>a\<bar> \<bar>b\<bar>")
  have "0 < \<bar>a\<bar>" "0 < \<bar>b\<bar>" using assms by simp_all
  from binary64_round_rounds_to[OF this mk]
  have "rounds_to \<bar>of_int a / of_int b\<bar> m k" by (simp add: abs_divide)
  moreover have "py_truediv a b =
               (if 971 < k \<or> (k = 971 \<and> 2 ^ 53 \<le> m) then Inl OverflowError
                else Inr (PyFloat ((a < 0) \<noteq> (b < 0)) (of_int m * 2 powi k)))"
    using assms mk by (simp add: py_truediv_def)
  ultimately show ?thesis using rounds_to_overflow_test[of "\<bar>of_int a / of_int b\<bar>" m k]
    by (intro exI[of _ m] exI[of _ k]) (simp only: simp_thms)
qed

lemma py_truediv_overflow_iff:
  assumes "b \<noteq> 0"
  shows "py_truediv a b = Inl OverflowError \<longleftrightarrow> 2 ^ 1024 - 2 ^ 970 \<le> \<bar>of_int a / of_int b :: rat\<bar>"
proof (cases "a = 0")
  case True
  have "(2::rat) ^ 970 < 2 ^ 1024" by (rule power_strict_increasing) simp_all
  with True assms show ?thesis by (simp add: py_truediv_def)
next
  case False
  from py_truediv_rounds[OF assms False] obtain m k where
    r: "rounds_to \<bar>of_int a / of_int b\<bar> m k" and
    e: "py_truediv a b =
               (if 2 ^ 1024 \<le> of_int m * (2::rat) powi k then Inl OverflowError
                else Inr (PyFloat ((a < 0) \<noteq> (b < 0)) (of_int m * 2 powi k)))" by blast
  from rounds_to_overflow_iff[OF r] e show ?thesis by (simp split: if_splits)
qed

lemma py_truediv_cases:
  assumes "b \<noteq> 0"
  shows "py_truediv a b = Inl OverflowError \<or> (\<exists>x. py_truediv a b = Inr x)"
proof (cases "a = 0")
  case True
  with assms show ?thesis by (simp add: py_truediv_def)
next
  case False
  from py_truediv_rounds[OF assms False] show ?thesis by (auto split: if_splits)
qed

lemma py_truediv_nearest:
  assumes "b \<noteq> 0" and "py_truediv a b = Inr x"
  shows "negative x = ((a < 0) \<noteq> (b < 0))"
    and "0 \<le> magnitude x"
    and "nearest_binary64 (of_int a / of_int b) (float_value x)"
proof -
  define q :: rat where "q = of_int a / of_int b"
  have sgn: "q = (if (a < 0) \<noteq> (b < 0) then - \<bar>q\<bar> else \<bar>q\<bar>)"
  proof -
    consider "0 \<le> a" "0 < b" | "a < 0" "0 < b" | "0 \<le> a" "b < 0" | "a < 0" "b < 0"
      using assms(1) by linarith
    then show ?thesis
    proof cases
      case 1
      then have "0 \<le> q" unfolding q_def by (intro divide_nonneg_pos) simp_all
      with 1 show ?thesis by simp
    next
      case 2
      then have "q < 0" unfolding q_def by (intro divide_neg_pos) simp_all
      with 2 show ?thesis by simp
    next
      case 3
      then have "q \<le> 0" unfolding q_def by (intro divide_nonneg_neg) simp_all
      with 3 show ?thesis by simp
    next
      case 4
      then have "0 < q" unfolding q_def by (intro divide_neg_neg) simp_all
      with 4 show ?thesis by simp
    qed
  qed
  have main: "negative x = ((a < 0) \<noteq> (b < 0)) \<and> 0 \<le> magnitude x
      \<and> nearest_binary64 \<bar>q\<bar> (magnitude x)"
  proof (cases "a = 0")
    case True
    with assms have "x = PyFloat (b < 0) 0" by (simp add: py_truediv_def)
    with True show ?thesis by (simp add: nearest_binary64_zero q_def)
  next
    case False
    from py_truediv_rounds[OF assms(1) False] obtain m k where
      r: "rounds_to \<bar>q\<bar> m k" and
      e: "py_truediv a b =
               (if 2 ^ 1024 \<le> of_int m * (2::rat) powi k then Inl OverflowError
                else Inr (PyFloat ((a < 0) \<noteq> (b < 0)) (of_int m * 2 powi k)))"
      unfolding q_def by blast
    from e assms(2) have small: "of_int m * (2::rat) powi k < 2 ^ 1024"
      and x: "x = PyFloat ((a < 0) \<noteq> (b < 0)) (of_int m * 2 powi k)"
      by (auto split: if_splits)
    have "0 \<le> of_int m * (2::rat) powi k"
      using rounds_to_mantissa(1)[OF r] by simp
    with rounds_to_nearest_binary64[OF r small] x show ?thesis by simp
  qed
  from main show "negative x = ((a < 0) \<noteq> (b < 0))" and "0 \<le> magnitude x" by simp_all
  show "nearest_binary64 (of_int a / of_int b) (float_value x)"
  proof (cases "(a < 0) \<noteq> (b < 0)")
    case True
    with main sgn have "float_value x = - magnitude x" and "q = - \<bar>q\<bar>"
      by (simp_all add: float_value_def)
    moreover from main have "nearest_binary64 (- \<bar>q\<bar>) (- magnitude x)"
      by (simp add: nearest_binary64_minus)
    ultimately show ?thesis by (simp add: q_def)
  next
    case False
    with main sgn have "float_value x = magnitude x" and "q = \<bar>q\<bar>"
      by (simp_all add: float_value_def)
    with main show ?thesis by (simp add: q_def)
  qed
qed

subsection \<open>The averages\<close>

text \<open>The sums of the metrics.\<close>

lemma sum_waiting_t_missing:
  assumes "find (\<lambda>p. waiting_t (st p) = None) ps = Some q"
  shows "sum_waiting_t st tot ps = Inl (MissingWaitingTimeError (p_id (st q)))"
  using assms by (induction ps arbitrary: tot) (auto split: option.splits if_splits)

lemma sum_waiting_t_all:
  assumes "map (\<lambda>p. waiting_t (st p)) ps = map Some ws"
  shows "sum_waiting_t st tot ps = Inr (tot + sum_list ws)"
  using assms by (induction ps arbitrary: tot ws) (auto split: option.splits)

lemma sum_turnaround_t_missing:
  assumes "find (\<lambda>p. turnaround_t (st p) = None) ps = Some q"
  shows "sum_turnaround_t st tot ps = Inl (MissingTurnaroundTimeError (p_id (st q)))"
  using assms by (induction ps arbitrary: tot) (auto split: option.splits if_splits)

lemma sum_turnaround_t_all:
  assumes "map (\<lambda>p. turnaround_t (st p)) ps = map Some ts"
  shows "sum_turnaround_t st tot ps = Inr (tot + sum_list ts)"
  using assms by (induction ps arbitrary: tot ts) (auto split: option.splits)

lemma no_missing_is_map_Some:
  "(\<forall>p\<in>set ps. f p \<noteq> None) \<longleftrightarrow> (\<exists>vs. map f ps = map Some vs)"
proof
  assume "\<forall>p\<in>set ps. f p \<noteq> None"
  then have "map f ps = map Some (map (\<lambda>p. the (f p)) ps)" by (induction ps) auto
  then show "\<exists>vs. map f ps = map Some vs" by blast
next
  assume "\<exists>vs. map f ps = map Some vs"
  then obtain vs where "map f ps = map Some vs" by blast
  then show "\<forall>p\<in>set ps. f p \<noteq> None" by (induction ps arbitrary: vs) auto
qed

lemma py_truediv_error:
  "py_truediv a b = Inl e \<Longrightarrow> e = ZeroDivisionError \<or> e = OverflowError"
  by (auto simp: py_truediv_def split: if_splits prod.splits)

lemma nearest_binary64_exact:
  assumes "nearest_binary64 q v" and "binary64 q"
  shows "v = q"
proof -
  from assms have "\<bar>v - q\<bar> \<le> \<bar>q - q\<bar>" unfolding nearest_binary64_def by blast
  then show ?thesis by simp
qed

text \<open>What true division returns for a non-zero divisor.\<close>

lemma py_truediv_quotient:
  assumes "b \<noteq> 0"
  shows "if 2 ^ 1024 - 2 ^ 970 \<le> \<bar>of_int a / of_int b :: rat\<bar>
         then py_truediv a b = Inl OverflowError
         else \<exists>x. py_truediv a b = Inr x
                \<and> nearest_binary64 (of_int a / of_int b) (float_value x)
                \<and> (negative x \<longleftrightarrow> (a < 0) \<noteq> (b < 0))"
proof (cases "2 ^ 1024 - 2 ^ 970 \<le> \<bar>of_int a / of_int b :: rat\<bar>")
  case True
  with py_truediv_overflow_iff[OF assms, of a] show ?thesis by (simp only: if_True)
next
  case False
  with py_truediv_overflow_iff[OF assms, of a] py_truediv_cases[OF assms, of a]
  obtain x where x: "py_truediv a b = Inr x" by blast
  from py_truediv_nearest[OF assms x]
  have "nearest_binary64 (of_int a / of_int b) (float_value x)
        \<and> (negative x \<longleftrightarrow> (a < 0) \<noteq> (b < 0))"
    by blast
  with x False show ?thesis by (simp only: if_False) blast
qed

lemma calc_avg_waiting_t_cases:
  "(find (\<lambda>p. waiting_t (store s p) = None) (history s) = Some q \<longrightarrow>
      calc_avg_waiting_t s = Inl (MissingWaitingTimeError (p_id (store s q))))
   \<and> (history_waiting_ts s = map Some ws \<longrightarrow>
      calc_avg_waiting_t s = py_truediv (sum_list ws) (int (length (history s))))"
  by (auto simp: calc_avg_waiting_t_def sum_waiting_t_missing sum_waiting_t_all
        history_waiting_ts_def)

lemma calc_avg_turnaround_t_cases:
  "(find (\<lambda>p. turnaround_t (store s p) = None) (history s) = Some q \<longrightarrow>
      calc_avg_turnaround_t s = Inl (MissingTurnaroundTimeError (p_id (store s q))))
   \<and> (history_turnaround_ts s = map Some ts \<longrightarrow>
      calc_avg_turnaround_t s = py_truediv (sum_list ts) (int (length (history s))))"
  by (auto simp: calc_avg_turnaround_t_def sum_turnaround_t_missing sum_turnaround_t_all
        history_turnaround_ts_def)

lemma find_missing_iff:
  "(\<exists>q. find (\<lambda>p. f p = None) ps = Some q) \<longleftrightarrow> (\<exists>p\<in>set ps. f p = None)"
  by (cases "find (\<lambda>p. f p = None) ps") (auto simp: find_None_iff find_Some_iff)

lemma calc_avg_waiting_t_missing_iff:
  "(\<exists>pid. calc_avg_waiting_t s = Inl (MissingWaitingTimeError pid))
     \<longleftrightarrow> (\<exists>p\<in>set (history s). waiting_t (store s p) = None)"
proof (cases "\<exists>p\<in>set (history s). waiting_t (store s p) = None")
  case True
  then obtain q where "find (\<lambda>p. waiting_t (store s p) = None) (history s) = Some q"
    using find_missing_iff[of "\<lambda>p. waiting_t (store s p)" "history s"] by blast
  with calc_avg_waiting_t_cases[of s q] True show ?thesis by blast
next
  case False
  then have "\<forall>p\<in>set (history s). waiting_t (store s p) \<noteq> None" by auto
  then obtain ws where "history_waiting_ts s = map Some ws"
    unfolding history_waiting_ts_def
    using no_missing_is_map_Some[of "history s" "\<lambda>p. waiting_t (store s p)"] by blast
  with calc_avg_waiting_t_cases[of s _ ws] False show ?thesis
    by (auto dest: py_truediv_error)
qed

lemma calc_avg_turnaround_t_missing_iff:
  "(\<exists>pid. calc_avg_turnaround_t s = Inl (MissingTurnaroundTimeError pid))
     \<longleftrightarrow> (\<exists>p\<in>set (history s). turnaround_t (store s p) = None)"
proof (cases "\<exists>p\<in>set (history s). turnaround_t (store s p) = None")
  case True
  then obtain q where "find (\<lambda>p. turnaround_t (store s p) = None) (history s) = Some q"
    using find_missing_iff[of "\<lambda>p. turnaround_t (store s p)" "history s"] by blast
  with calc_avg_turnaround_t_cases[of s q] True show ?thesis by blast
next
  case False
  then have "\<forall>p\<in>set (history s). turnaround_t (store s p) \<noteq> None" by auto
  then obtain ts where "history_turnaround_ts s = map Some ts"
    unfolding history_turnaround_ts_def
    using no_missing_is_map_Some[of "history s" "\<lambda>p. turnaround_t (store s p)"] by blast
  with calc_avg_turnaround_t_cases[of s _ ts] False show ?thesis
    by (auto dest: py_truediv_error)
qed

text \<open>FCFS: what a run does depends on the burst times only.\<close>

lemma fcfs_execute_bursts_only:
  assumes "running s = running t" and "ready_queue s = ready_queue t"
    and "history s = history t" and "total_t s = total_t t"
    and "\<forall>p. burst_t (store s p) = burst_t (store t p)"
  shows "outcome history (fcfs_execute s) = outcome history (fcfs_execute t)"
  using assms
proof (induction s arbitrary: t rule: fcfs_execute.induct)
  case (1 s)
  show ?case
  proof (cases "running s")
    case None
    with "1.prems" show ?thesis by (simp add: fcfs_execute_None outcome_def)
  next
    case (Some r)
    then have rt: "running t = Some r" using "1.prems"(1) by simp
    show ?thesis
    proof (cases "total_t s < 0")
      case True
      with Some rt "1.prems"(4) show ?thesis
        by (simp add: fcfs_execute_Some update_running_process_Some outcome_def)
    next
      case False
      let ?f = "\<lambda>x. x\<lparr>total_t := total_t x + burst_t (store x r),
                 store := (store x)(r := (store x r)
                   \<lparr>completion_t := Some (total_t x + burst_t (store x r)),
                    turnaround_t := Some (total_t x + burst_t (store x r) - arrival_t (store x r)),
                    waiting_t := Some (total_t x + burst_t (store x r) - arrival_t (store x r)
                                         - burst_t (store x r))\<rparr>)\<rparr>"
      have us: "update_running_process s = Inr (?f s)"
        using False Some by (simp add: update_running_process_Some)
      have ut: "update_running_process t = Inr (?f t)"
        using False rt "1.prems"(4) by (simp add: update_running_process_Some)
      let ?s' = "fcfs_next ((?f s)\<lparr>history := history (?f s) @ [r]\<rparr>)"
      let ?t' = "fcfs_next ((?f t)\<lparr>history := history (?f t) @ [r]\<rparr>)"
      have rel: "running ?s' = running ?t'" "ready_queue ?s' = ready_queue ?t'"
        "history ?s' = history ?t'" "total_t ?s' = total_t ?t'"
        "\<forall>p. burst_t (store ?s' p) = burst_t (store ?t' p)"
        using "1.prems" by (cases "ready_queue t"; simp add: fcfs_next_Nil fcfs_next_Cons)+
      from "1.IH"[OF Some us rel]
      show ?thesis using Some rt us ut by (simp add: fcfs_execute_Some)
    qed
  qed
qed

lemma fcfs_admit_bursts_only:
  assumes "\<forall>p. burst_t (st' p) = burst_t (st p)"
  shows "outcome history (fcfs_execute (fcfs_admit st' ps))
         = outcome history (fcfs_execute (fcfs_admit st ps))"
  by (rule fcfs_execute_bursts_only)
     (cases ps; simp add: fcfs_admit_Nil fcfs_admit_Cons Scheduler_init_def assms)+

section \<open>Claims\<close>

text \<open>
  C8. \<^verbatim>\<open>set_completion_t(t)\<close> raises exactly when \<open>t < burst_t\<close>, and the exception is
  \<open>InvalidCompletionTimeError\<close>; the raise leaves the process as it was (so
  \<open>completion_t\<close> is unchanged); a call that returns has set \<open>completion_t\<close> to \<open>t\<close>
  and changed no other field.
\<close>

theorem set_completion_t_contract:
  "((\<exists>e p'. set_completion_t p t = Inl (e, p')) \<longleftrightarrow> t < burst_t p)
   \<and> (\<forall>e p'. set_completion_t p t = Inl (e, p') \<longrightarrow> e = InvalidCompletionTimeError \<and> p' = p)
   \<and> (\<forall>p'. set_completion_t p t = Inr p' \<longrightarrow>
          completion_t p' = Some t \<and> p_id p' = p_id p \<and> arrival_t p' = arrival_t p
          \<and> burst_t p' = burst_t p \<and> turnaround_t p' = turnaround_t p
          \<and> waiting_t p' = waiting_t p)"
  by (auto simp: set_completion_t_def split: if_splits)

theorem set_completion_t_contract_witness:
  "set_completion_t (Process_init ''P0'' 0 5) 4
     = Inl (InvalidCompletionTimeError, Process_init ''P0'' 0 5)
   \<and> (\<exists>p'. set_completion_t (Process_init ''P0'' 0 5) 5 = Inr p' \<and> completion_t p' = Some 5
            \<and> turnaround_t p' = None \<and> burst_t p' = 5)"
  using set_completion_t_contract[of "Process_init ''P0'' 0 5" 4]
    set_completion_t_contract[of "Process_init ''P0'' 0 5" 5]
  by (cases "set_completion_t (Process_init ''P0'' 0 5) 5";
      cases "set_completion_t (Process_init ''P0'' 0 5) 4")
     (auto simp: Process_init_def)

text \<open>
  C6. The run of the SJF engine on P1(2,6), P2(5,2), P3(1,8), P4(0,3), P5(4,4), admitted
  in this order, is not P4, P3, P1, P5, P2: when P4 ends at time 3, P1 (arrived at 2,
  burst 6) is in the queue beside P3 (burst 8) and is chosen.
\<close>

theorem sjf_scenario_order_counterexample:
  "outcome history_ids (sjf_execute (sjf_admit sjf_main_store [1, 2, 3, 4, 5]))
     \<noteq> Inr [''P4'', ''P3'', ''P1'', ''P5'', ''P2'']"
  by code_simp

text \<open>
  C6, amended. The run order of that scenario is P4, P1, P2, P5, P3, with completion
  times 3, 9, 11, 15, 23.
\<close>

theorem sjf_scenario_order:
  "outcome history_ids (sjf_execute (sjf_admit sjf_main_store [1, 2, 3, 4, 5]))
     = Inr [''P4'', ''P1'', ''P2'', ''P5'', ''P3'']
   \<and> outcome history_completion_ts (sjf_execute (sjf_admit sjf_main_store [1, 2, 3, 4, 5]))
     = Inr [Some 3, Some 9, Some 11, Some 15, Some 23]"
  by code_simp

text \<open>
  C5. With no process admitted, \<^verbatim>\<open>execute\<close> of the FCFS engine returns and leaves the
  scheduler as it was, with an empty history; \<^verbatim>\<open>execute\<close> of the SJF engine raises
  \<open>IndexError\<close>, from the \<^verbatim>\<open>pop(0)\<close> of \<^verbatim>\<open>setup\<close> on the empty queue.
\<close>

theorem empty_admission_execute:
  "fcfs_execute (fcfs_admit st []) = Inr (Scheduler_init st)
   \<and> history (Scheduler_init st) = []
   \<and> sjf_execute (sjf_admit st []) = Inl (IndexError, Scheduler_init st)"
  by (simp add: fcfs_admit_Nil fcfs_execute_None sjf_execute_def sjf_setup_Nil
        Scheduler_init_def)

text \<open>
  C1. \<^verbatim>\<open>set_highest_priority_process\<close>, in any state (so at every selection step of
  the loop): when some process in \<open>ready_queue\<close> has arrived (\<open>arrival_t \<le> total_t\<close>),
  the queue splits as \<open>pre @ m # post\<close> around the chosen process \<open>m\<close>, which has
  arrived, has a burst time strictly below every arrived process before it and at most
  that of every arrived process after it (the first minimum in queue order); \<open>m\<close> becomes
  \<open>running\<close> and the queue becomes \<open>pre @ post\<close>. When no queued process has arrived,
  \<open>running\<close> becomes \<open>None\<close> and nothing else changes. Every iteration of the loop
  of \<^verbatim>\<open>execute\<close> whose run step succeeds continues from the state this selection
  returns.
\<close>

theorem sjf_selection_rule:
  "(if \<exists>p\<in>set (ready_queue s). arrived s p
    then \<exists>m pre post.
           ready_queue s = pre @ m # post \<and> arrived s m
           \<and> (\<forall>x\<in>set pre. arrived s x \<longrightarrow> burst_t (store s m) < burst_t (store s x))
           \<and> (\<forall>x\<in>set post. arrived s x \<longrightarrow> burst_t (store s m) \<le> burst_t (store s x))
           \<and> set_highest_priority_process s = s\<lparr>running := Some m, ready_queue := pre @ post\<rparr>
    else set_highest_priority_process s = s\<lparr>running := None\<rparr>)
   \<and> (running s0 = Some r \<and> update_running_process s0 = Inr s1 \<longrightarrow>
        sjf_loop s0
          = sjf_loop (set_highest_priority_process (s1\<lparr>history := history s1 @ [r]\<rparr>)))"
proof -
  have "if \<exists>p\<in>set (ready_queue s). arrived s p
    then \<exists>m pre post.
           ready_queue s = pre @ m # post \<and> arrived s m
           \<and> (\<forall>x\<in>set pre. arrived s x \<longrightarrow> burst_t (store s m) < burst_t (store s x))
           \<and> (\<forall>x\<in>set post. arrived s x \<longrightarrow> burst_t (store s m) \<le> burst_t (store s x))
           \<and> set_highest_priority_process s = s\<lparr>running := Some m, ready_queue := pre @ post\<rparr>
    else set_highest_priority_process s = s\<lparr>running := None\<rparr>"
  proof (cases "\<exists>p\<in>set (ready_queue s). arrived s p")
    case True
    from set_highest_priority_process_Some[OF this] True show ?thesis
      by (simp only: if_True) blast
  next
    case False
    then have "\<forall>p\<in>set (ready_queue s). \<not> arrived s p" by blast
    from set_highest_priority_process_None[OF this] False show ?thesis
      by (simp only: if_False)
  qed
  moreover have "sjf_loop s0
      = sjf_loop (set_highest_priority_process (s1\<lparr>history := history s1 @ [r]\<rparr>))"
    if "running s0 = Some r" "update_running_process s0 = Inr s1"
    using that by (simp add: sjf_loop_Some)
  ultimately show ?thesis by blast
qed

theorem sjf_selection_rule_witness:
  "arrived sjf_select_state 1
   \<and> running (set_highest_priority_process sjf_select_state) = Some 1
   \<and> ready_queue (set_highest_priority_process sjf_select_state) = [3, 5, 2]
   \<and> \<not> arrived gap_select_state 1
   \<and> running (set_highest_priority_process gap_select_state) = None
   \<and> ready_queue (set_highest_priority_process gap_select_state) = [1]"
proof -
  have a: "arrived sjf_select_state 1" "\<not> arrived gap_select_state 1"
    by (simp_all add: arrived_def sjf_select_state_def gap_select_state_def
          sjf_main_store_def gap_store_def Process_init_def)
  have b: "\<not> (\<exists>p\<in>set (ready_queue gap_select_state). arrived gap_select_state p)"
    using a(2) by (simp add: gap_select_state_def)
  have c: "set_highest_priority_process gap_select_state
           = gap_select_state\<lparr>running := None\<rparr>"
    using sjf_selection_rule[of gap_select_state] b by simp
  have d: "running (set_highest_priority_process sjf_select_state) = Some 1
           \<and> ready_queue (set_highest_priority_process sjf_select_state) = [3, 5, 2]"
    by code_simp
  from a c d show ?thesis by (simp add: gap_select_state_def)
qed

text \<open>
  C2. FCFS: whenever \<^verbatim>\<open>execute\<close> returns, \<open>history\<close> is the list of admitted
  processes in admission order; \<^verbatim>\<open>execute\<close> does return, with that history, when no
  burst time is negative; and two process sets with the same burst times give the same
  history (or the same exception) whatever their arrival times are.
\<close>

theorem fcfs_history_is_admission_order:
  "(fcfs_execute (fcfs_admit st ps) = Inr s' \<longrightarrow> history s' = ps)
   \<and> ((\<forall>p\<in>set ps. 0 \<le> burst_t (st p)) \<longrightarrow>
        (\<exists>s''. fcfs_execute (fcfs_admit st ps) = Inr s'' \<and> history s'' = ps))
   \<and> ((\<forall>p. burst_t (st' p) = burst_t (st p)) \<longrightarrow>
        outcome history (fcfs_execute (fcfs_admit st' ps))
          = outcome history (fcfs_execute (fcfs_admit st ps)))"
proof -
  have a: "history x = ps" if "fcfs_execute (fcfs_admit st ps) = Inr x" for x
    using fcfs_execute_order[OF that] by simp
  have "\<exists>x. fcfs_execute (fcfs_admit st ps) = Inr x" if "\<forall>p\<in>set ps. 0 \<le> burst_t (st p)"
    using that fcfs_execute_total[of "fcfs_admit st ps"] by simp
  with a fcfs_admit_bursts_only[of st' st ps] show ?thesis by blast
qed

theorem fcfs_history_is_admission_order_witness:
  "list_all (\<lambda>p. 0 \<le> burst_t (fcfs_main_store p)) [3, 1, 0, 2]
   \<and> (\<exists>s'. fcfs_execute (fcfs_admit fcfs_main_store [3, 1, 0, 2]) = Inr s'
           \<and> history s' = [3, 1, 0, 2])
   \<and> (\<forall>p. burst_t (fcfs_other_arrivals_store p) = burst_t (fcfs_main_store p))
   \<and> outcome history (fcfs_execute (fcfs_admit fcfs_other_arrivals_store [3, 1, 0, 2]))
       = outcome history (fcfs_execute (fcfs_admit fcfs_main_store [3, 1, 0, 2]))"
  using fcfs_history_is_admission_order[of fcfs_main_store "[3, 1, 0, 2]" _
          fcfs_other_arrivals_store]
  by (simp add: fcfs_main_store_def fcfs_other_arrivals_store_def Process_init_def)

text \<open>
  C3. After \<^verbatim>\<open>execute\<close> has returned, in either engine, every process in \<open>history\<close>
  has its three timing fields set, with \<open>completion_t \<ge> burst_t\<close>,
  \<open>turnaround_t = completion_t - arrival_t\<close> and \<open>waiting_t = turnaround_t - burst_t\<close>.
\<close>

theorem history_timings_consistent:
  "(fcfs_execute (fcfs_admit st ps) = Inr s' \<longrightarrow>
      (\<forall>p\<in>set (history s'). timings_ok (store s' p)))
   \<and> (sjf_execute (sjf_admit st ps) = Inr s' \<longrightarrow>
      (\<forall>p\<in>set (history s'). timings_ok (store s' p)))"
proof -
  have "\<forall>p\<in>set (history s'). timings_ok (store s' p)"
    if "fcfs_execute (fcfs_admit st ps) = Inr s'"
    using fcfs_execute_timings[OF that] by simp
  moreover have "\<forall>p\<in>set (history s'). timings_ok (store s' p)"
    if "sjf_execute (sjf_admit st ps) = Inr s'"
  proof -
    from sjf_execute_InrD[OF that] obtain s1 where "sjf_loop s1 = Inr s'" "history s1 = []"
      by blast
    from sjf_loop_timings[OF this(1)] this(2) show ?thesis by simp
  qed
  ultimately show ?thesis by blast
qed

theorem history_timings_consistent_witness:
  "(\<exists>s'. fcfs_execute (fcfs_admit fcfs_main_store [0, 1, 2, 3]) = Inr s'
         \<and> history s' = [0, 1, 2, 3]
         \<and> list_all (\<lambda>p. timings_ok (store s' p)) (history s'))
   \<and> (\<exists>s'. sjf_execute (sjf_admit sjf_main_store [1, 2, 3, 4, 5]) = Inr s'
         \<and> length (history s') = 5
         \<and> list_all (\<lambda>p. timings_ok (store s' p)) (history s'))"
proof -
  have "\<forall>p\<in>set [0, 1, 2, 3]. 0 \<le> burst_t (fcfs_main_store p)"
    by (simp add: fcfs_main_store_def Process_init_def)
  from fcfs_execute_total[of "fcfs_admit fcfs_main_store [0, 1, 2, 3]"] this
  obtain x where x: "fcfs_execute (fcfs_admit fcfs_main_store [0, 1, 2, 3]) = Inr x"
    by auto
  have hx: "history x = [0, 1, 2, 3]" using fcfs_execute_order[OF x] by simp
  have "outcome history_ids (sjf_execute (sjf_admit sjf_main_store [1, 2, 3, 4, 5]))
        = Inr [''P4'', ''P1'', ''P2'', ''P5'', ''P3'']" by code_simp
  then obtain y where y: "sjf_execute (sjf_admit sjf_main_store [1, 2, 3, 4, 5]) = Inr y"
    and hy: "length (history y) = 5"
    by (cases "sjf_execute (sjf_admit sjf_main_store [1, 2, 3, 4, 5])")
       (auto simp: outcome_def history_ids_def dest: arg_cong[where f = length])
  from history_timings_consistent[of fcfs_main_store "[0, 1, 2, 3]" x] x
  have "list_all (\<lambda>p. timings_ok (store x p)) (history x)" by (simp add: list_all_iff)
  moreover from history_timings_consistent[of sjf_main_store "[1, 2, 3, 4, 5]" y] y
  have "list_all (\<lambda>p. timings_ok (store y p)) (history y)" by (simp add: list_all_iff)
  ultimately show ?thesis using x hx y hy by blast
qed

text \<open>
  C4. The SJF engine does not always run every admitted process: with A(arrival 0,
  burst 1) and B(5, 1), B has not arrived when A ends at time 1, the selection finds
  nothing and the loop ends with one process in \<open>history\<close>.
\<close>

theorem history_length_counterexample:
  "outcome history_length (sjf_execute (sjf_admit gap_store [0, 1]))
     \<noteq> Inr (length [0 :: ref, 1])"
  by code_simp

text \<open>
  C4, amended. After a successful \<^verbatim>\<open>execute\<close>, the FCFS history has as many entries as
  processes were admitted. For the SJF engine, \<open>history\<close> and the processes left in
  \<open>ready_queue\<close> together are exactly the admitted processes, so the history length is
  the number admitted minus the number left, and every process left has an arrival time
  beyond the final clock.
\<close>

theorem history_length_accounting:
  "(fcfs_execute (fcfs_admit st ps) = Inr s' \<longrightarrow> length (history s') = length ps)
   \<and> (sjf_execute (sjf_admit st ps) = Inr s' \<longrightarrow>
        mset (history s') + mset (ready_queue s') = mset ps
        \<and> length (history s') + length (ready_queue s') = length ps
        \<and> (\<forall>p\<in>set (ready_queue s'). total_t s' < arrival_t (store s' p)))"
proof -
  have "length (history s') = length ps" if "fcfs_execute (fcfs_admit st ps) = Inr s'"
    using fcfs_execute_order[OF that] by simp
  moreover have "mset (history s') + mset (ready_queue s') = mset ps
        \<and> length (history s') + length (ready_queue s') = length ps
        \<and> (\<forall>p\<in>set (ready_queue s'). total_t s' < arrival_t (store s' p))"
    if "sjf_execute (sjf_admit st ps) = Inr s'"
  proof -
    from sjf_execute_InrD[OF that] obtain s1 where s1: "sjf_loop s1 = Inr s'" "history s1 = []"
      "pending s1 = sort_key (\<lambda>p. arrival_t (st p)) ps" "running s1 \<noteq> None" by blast
    from sjf_loop_accounting[OF s1(1,4)] s1(2,3)
    have m: "mset (history s') + mset (ready_queue s') = mset ps"
      and u: "\<forall>p\<in>set (ready_queue s'). \<not> arrived s' p" by simp_all
    from m have "size (mset (history s') + mset (ready_queue s')) = size (mset ps)" by simp
    then have "length (history s') + length (ready_queue s') = length ps" by simp
    with m u show ?thesis by (auto simp: arrived_def)
  qed
  ultimately show ?thesis by blast
qed

theorem history_length_accounting_witness:
  "(\<exists>s'. fcfs_execute (fcfs_admit gap_store [0, 1]) = Inr s' \<and> length (history s') = 2)
   \<and> (\<exists>s'. sjf_execute (sjf_admit gap_store [0, 1]) = Inr s'
          \<and> history s' = [0] \<and> ready_queue s' = [1]
          \<and> length (history s') + length (ready_queue s') = 2
          \<and> total_t s' < arrival_t (store s' 1))"
proof -
  have "\<forall>p\<in>set [0, 1]. 0 \<le> burst_t (gap_store p)"
    by (simp add: gap_store_def Process_init_def)
  from fcfs_execute_total[of "fcfs_admit gap_store [0, 1]"] this
  obtain x where x: "fcfs_execute (fcfs_admit gap_store [0, 1]) = Inr x" by auto
  have "outcome history (sjf_execute (sjf_admit gap_store [0, 1])) = Inr [0]"
    and "outcome ready_queue (sjf_execute (sjf_admit gap_store [0, 1])) = Inr [1]"
    by code_simp+
  then obtain y where y: "sjf_execute (sjf_admit gap_store [0, 1]) = Inr y"
    "history y = [0]" "ready_queue y = [1]"
    by (cases "sjf_execute (sjf_admit gap_store [0, 1])") (auto simp: outcome_def)
  from history_length_accounting[of gap_store "[0, 1]" x] x
  have a: "length (history x) = 2" by simp
  from history_length_accounting[of gap_store "[0, 1]" y] y
  have b: "length (history y) + length (ready_queue y) = 2"
    "total_t y < arrival_t (store y 1)" by simp_all
  from x a y b show ?thesis by blast
qed



text \<open>
  C7. When every admitted process is admitted once and has a positive burst time, both
  engines return (the SJF engine given at least one process) and the completion times of
  the processes in \<open>history\<close>, read in history order, are all set and non-decreasing.
  The clock itself grows with every run step of a process with positive burst time.
\<close>

theorem completion_times_nondecreasing:
  assumes "distinct ps" and "\<forall>p\<in>set ps. 0 < burst_t (st p)"
  shows "(\<exists>s' cs. fcfs_execute (fcfs_admit st ps) = Inr s'
             \<and> history_completion_ts s' = map Some cs \<and> sorted cs)
       \<and> (ps \<noteq> [] \<longrightarrow>
            (\<exists>s' cs. sjf_execute (sjf_admit st ps) = Inr s'
               \<and> history_completion_ts s' = map Some cs \<and> sorted cs))
       \<and> (running s = Some r \<and> 0 < burst_t (store s r) \<and> update_running_process s = Inr s1
            \<longrightarrow> total_t s < total_t s1)"
proof -
  from assms(2) have nn: "\<forall>p\<in>set ps. 0 \<le> burst_t (st p)" by force
  from fcfs_completion_ts_sorted[OF assms(1) nn] sjf_completion_ts_sorted[OF assms(1) nn]
    clock_advances[of s r s1]
  show ?thesis by auto
qed

theorem completion_times_nondecreasing_witness:
  "distinct [0, 1, 2, 3 :: ref]
   \<and> list_all (\<lambda>p. 0 < burst_t (fcfs_main_store p)) [0, 1, 2, 3]
   \<and> (\<exists>s' cs. fcfs_execute (fcfs_admit fcfs_main_store [0, 1, 2, 3]) = Inr s'
          \<and> history_completion_ts s' = map Some cs \<and> sorted cs)
   \<and> (\<exists>s' cs. sjf_execute (sjf_admit fcfs_main_store [0, 1, 2, 3]) = Inr s'
          \<and> history_completion_ts s' = map Some cs \<and> sorted cs)
   \<and> outcome history_completion_ts (fcfs_execute (fcfs_admit fcfs_main_store [0, 1, 2, 3]))
       = Inr [Some 5, Some 8, Some 16, Some 22]"
proof -
  have h: "distinct [0, 1, 2, 3 :: ref]"
    "\<forall>p\<in>set [0, 1, 2, 3]. 0 < burst_t (fcfs_main_store p)"
    by (simp_all add: fcfs_main_store_def Process_init_def)
  have e: "outcome history_completion_ts (fcfs_execute (fcfs_admit fcfs_main_store [0, 1, 2, 3]))
       = Inr [Some 5, Some 8, Some 16, Some 22]" by code_simp
  from completion_times_nondecreasing[OF h] h e show ?thesis
    by (simp add: list_all_iff)
qed

text \<open>
  C9. \<^verbatim>\<open>calc_avg_waiting_t\<close> does not always return the sum of the waiting times
  divided by the length of \<open>history\<close>: for the waiting times 0, 0, 1 it returns the
  float \<open>6004799503160661 / 2\<^sup>5\<^sup>4\<close>, which is not \<open>1 / 3\<close>, and for the waiting times
  0 and \<open>2\<^sup>1\<^sup>0\<^sup>2\<^sup>5\<close> it raises \<open>OverflowError\<close>. Both histories come from runs of the
  FCFS engine.
\<close>

theorem calc_avg_counterexample:
  "outcome history_waiting_ts (fcfs_execute (fcfs_admit thirds_store [0, 1, 2]))
     = Inr [Some 0, Some 0, Some 1]
   \<and> outcome calc_avg_waiting_t (fcfs_execute (fcfs_admit thirds_store [0, 1, 2]))
     = Inr (Inr (PyFloat False (6004799503160661 / 18014398509481984)))
   \<and> (6004799503160661 / 18014398509481984 :: rat) \<noteq> 1 / 3
   \<and> outcome history_waiting_ts (fcfs_execute (fcfs_admit huge_store [0, 1]))
     = Inr [Some 0, Some (2 ^ 1025)]
   \<and> outcome calc_avg_waiting_t (fcfs_execute (fcfs_admit huge_store [0, 1]))
     = Inr (Inl OverflowError)"
  by code_simp

text \<open>
  C9, amended. \<^verbatim>\<open>calc_avg_waiting_t\<close> raises \<open>MissingWaitingTimeError\<close> exactly when
  some process in \<open>history\<close> has no \<open>waiting_t\<close>, and the error names the \<^verbatim>\<open>p_id\<close>
  of the first such process. When all waiting times are set and \<open>history\<close> is not empty,
  let \<open>q\<close> be their sum divided by the length of \<open>history\<close>: if \<open>\<bar>q\<bar>\<close> is at least
  \<open>2\<^sup>1\<^sup>0\<^sup>2\<^sup>4 - 2\<^sup>9\<^sup>7\<^sup>0\<close> the function raises \<open>OverflowError\<close>; otherwise it returns
  the float that is \<open>q\<close> rounded to binary64, ties to even (so \<open>q\<close> itself when \<open>q\<close>
  is a binary64 number), with the sign bit set exactly when the sum is negative. On an empty
  \<open>history\<close> it raises \<open>ZeroDivisionError\<close>. The same holds for
  \<^verbatim>\<open>calc_avg_turnaround_t\<close> with \<open>turnaround_t\<close> and \<open>MissingTurnaroundTimeError\<close>.
\<close>

theorem calc_avg_contract:
  "((\<exists>pid. calc_avg_waiting_t s = Inl (MissingWaitingTimeError pid))
       \<longleftrightarrow> (\<exists>p\<in>set (history s). waiting_t (store s p) = None))
   \<and> (find (\<lambda>p. waiting_t (store s p) = None) (history s) = Some q \<longrightarrow>
        calc_avg_waiting_t s = Inl (MissingWaitingTimeError (p_id (store s q))))
   \<and> (history_waiting_ts s = map Some ws \<and> history s \<noteq> [] \<longrightarrow>
        (if 2 ^ 1024 - 2 ^ 970
              \<le> \<bar>of_int (sum_list ws) / of_int (int (length (history s))) :: rat\<bar>
         then calc_avg_waiting_t s = Inl OverflowError
         else \<exists>x. calc_avg_waiting_t s = Inr x
                \<and> nearest_binary64 (of_int (sum_list ws) / of_int (int (length (history s))))
                     (float_value x)
                \<and> (binary64 (of_int (sum_list ws) / of_int (int (length (history s)))) \<longrightarrow>
                     float_value x = of_int (sum_list ws) / of_int (int (length (history s))))
                \<and> (negative x \<longleftrightarrow> sum_list ws < 0)))
   \<and> (history s = [] \<longrightarrow> calc_avg_waiting_t s = Inl ZeroDivisionError)
   \<and> ((\<exists>pid. calc_avg_turnaround_t s = Inl (MissingTurnaroundTimeError pid))
       \<longleftrightarrow> (\<exists>p\<in>set (history s). turnaround_t (store s p) = None))
   \<and> (find (\<lambda>p. turnaround_t (store s p) = None) (history s) = Some q' \<longrightarrow>
        calc_avg_turnaround_t s = Inl (MissingTurnaroundTimeError (p_id (store s q'))))
   \<and> (history_turnaround_ts s = map Some ts \<and> history s \<noteq> [] \<longrightarrow>
        (if 2 ^ 1024 - 2 ^ 970
              \<le> \<bar>of_int (sum_list ts) / of_int (int (length (history s))) :: rat\<bar>
         then calc_avg_turnaround_t s = Inl OverflowError
         else \<exists>x. calc_avg_turnaround_t s = Inr x
                \<and> nearest_binary64 (of_int (sum_list ts) / of_int (int (length (history s))))
                     (float_value x)
                \<and> (binary64 (of_int (sum_list ts) / of_int (int (length (history s)))) \<longrightarrow>
                     float_value x = of_int (sum_list ts) / of_int (int (length (history s))))
                \<and> (negative x \<longleftrightarrow> sum_list ts < 0)))
   \<and> (history s = [] \<longrightarrow> calc_avg_turnaround_t s = Inl ZeroDivisionError)"
proof -
  have e: "calc_avg_waiting_t s = Inl ZeroDivisionError"
    "calc_avg_turnaround_t s = Inl ZeroDivisionError" if "history s = []"
    using that calc_avg_waiting_t_cases[of s _ "[]"] calc_avg_turnaround_t_cases[of s _ "[]"]
    by (simp_all add: history_waiting_ts_def history_turnaround_ts_def py_truediv_def)
  have v: "if 2 ^ 1024 - 2 ^ 970 \<le> \<bar>of_int (sum_list vs) / of_int (int (length (history s))) :: rat\<bar>
         then py_truediv (sum_list vs) (int (length (history s))) = Inl OverflowError
         else \<exists>x. py_truediv (sum_list vs) (int (length (history s))) = Inr x
                \<and> nearest_binary64 (of_int (sum_list vs) / of_int (int (length (history s))))
                     (float_value x)
                \<and> (binary64 (of_int (sum_list vs) / of_int (int (length (history s)))) \<longrightarrow>
                     float_value x = of_int (sum_list vs) / of_int (int (length (history s))))
                \<and> (negative x \<longleftrightarrow> sum_list vs < 0)"
    if "history s \<noteq> []" for vs
  proof -
    from that have b: "int (length (history s)) \<noteq> 0" "\<not> int (length (history s)) < 0" by simp_all
    from py_truediv_quotient[OF b(1), of "sum_list vs"] b(2) show ?thesis
      by (auto dest: nearest_binary64_exact split: if_splits)
  qed
  have w: "history_waiting_ts s = map Some ws \<and> history s \<noteq> [] \<longrightarrow>
        (if 2 ^ 1024 - 2 ^ 970
              \<le> \<bar>of_int (sum_list ws) / of_int (int (length (history s))) :: rat\<bar>
         then calc_avg_waiting_t s = Inl OverflowError
         else \<exists>x. calc_avg_waiting_t s = Inr x
                \<and> nearest_binary64 (of_int (sum_list ws) / of_int (int (length (history s))))
                     (float_value x)
                \<and> (binary64 (of_int (sum_list ws) / of_int (int (length (history s)))) \<longrightarrow>
                     float_value x = of_int (sum_list ws) / of_int (int (length (history s))))
                \<and> (negative x \<longleftrightarrow> sum_list ws < 0))"
    using calc_avg_waiting_t_cases[of s _ ws] v[of ws] by auto
  have t: "history_turnaround_ts s = map Some ts \<and> history s \<noteq> [] \<longrightarrow>
        (if 2 ^ 1024 - 2 ^ 970
              \<le> \<bar>of_int (sum_list ts) / of_int (int (length (history s))) :: rat\<bar>
         then calc_avg_turnaround_t s = Inl OverflowError
         else \<exists>x. calc_avg_turnaround_t s = Inr x
                \<and> nearest_binary64 (of_int (sum_list ts) / of_int (int (length (history s))))
                     (float_value x)
                \<and> (binary64 (of_int (sum_list ts) / of_int (int (length (history s)))) \<longrightarrow>
                     float_value x = of_int (sum_list ts) / of_int (int (length (history s))))
                \<and> (negative x \<longleftrightarrow> sum_list ts < 0))"
    using calc_avg_turnaround_t_cases[of s _ ts] v[of ts] by auto
  from calc_avg_waiting_t_missing_iff[of s] calc_avg_turnaround_t_missing_iff[of s]
    calc_avg_waiting_t_cases[of s q ws] calc_avg_turnaround_t_cases[of s q' ts] e w t
  show ?thesis by blast
qed

theorem calc_avg_contract_witness:
  "(\<exists>s' x. fcfs_execute (fcfs_admit fcfs_main_store [0, 1, 2, 3]) = Inr s'
         \<and> history_waiting_ts s' = map Some [0, 4, 6, 13]
         \<and> calc_avg_waiting_t s' = Inr x \<and> x = PyFloat False (23 / 4)
         \<and> nearest_binary64 (23 / 4) (float_value x))
   \<and> (\<exists>s' x. fcfs_execute (fcfs_admit thirds_store [0, 1, 2]) = Inr s'
         \<and> history_waiting_ts s' = map Some [0, 0, 1]
         \<and> calc_avg_waiting_t s' = Inr x
         \<and> x = PyFloat False (6004799503160661 / 18014398509481984)
         \<and> nearest_binary64 (1 / 3) (float_value x))
   \<and> (\<exists>s'. fcfs_execute (fcfs_admit huge_store [0, 1]) = Inr s'
         \<and> history_turnaround_ts s' = map Some [2 ^ 1025, 2 ^ 1025 + 1]
         \<and> calc_avg_turnaround_t s' = Inl OverflowError)
   \<and> find (\<lambda>p. waiting_t (store metrics_missing_state p) = None)
         (history metrics_missing_state) = Some 1
   \<and> calc_avg_waiting_t metrics_missing_state = Inl (MissingWaitingTimeError ''P1'')
   \<and> calc_avg_turnaround_t metrics_missing_state = Inl (MissingTurnaroundTimeError ''P1'')
   \<and> calc_avg_waiting_t (Scheduler_init fcfs_main_store) = Inl ZeroDivisionError
   \<and> calc_avg_turnaround_t (Scheduler_init fcfs_main_store) = Inl ZeroDivisionError"
proof -
  have "outcome history_waiting_ts (fcfs_execute (fcfs_admit fcfs_main_store [0, 1, 2, 3]))
          = Inr [Some 0, Some 4, Some 6, Some 13]"
    and "outcome calc_avg_waiting_t (fcfs_execute (fcfs_admit fcfs_main_store [0, 1, 2, 3]))
          = Inr (Inr (PyFloat False (23 / 4)))"
    and "outcome history (fcfs_execute (fcfs_admit fcfs_main_store [0, 1, 2, 3]))
          = Inr [0, 1, 2, 3]"
    by code_simp+
  then obtain x where x: "fcfs_execute (fcfs_admit fcfs_main_store [0, 1, 2, 3]) = Inr x"
    "history_waiting_ts x = map Some [0, 4, 6, 13]"
    "calc_avg_waiting_t x = Inr (PyFloat False (23 / 4))" "history x = [0, 1, 2, 3]"
    by (cases "fcfs_execute (fcfs_admit fcfs_main_store [0, 1, 2, 3])")
       (auto simp: outcome_def)
  from calc_avg_contract[of x _ "[0, 4, 6, 13]"] x
  have a: "nearest_binary64 (23 / 4) (float_value (PyFloat False (23 / 4)))"
    by (simp split: if_splits)
  have "outcome history_waiting_ts (fcfs_execute (fcfs_admit thirds_store [0, 1, 2]))
          = Inr [Some 0, Some 0, Some 1]"
    and "outcome calc_avg_waiting_t (fcfs_execute (fcfs_admit thirds_store [0, 1, 2]))
          = Inr (Inr (PyFloat False (6004799503160661 / 18014398509481984)))"
    and "outcome history (fcfs_execute (fcfs_admit thirds_store [0, 1, 2])) = Inr [0, 1, 2]"
    by code_simp+
  then obtain y where y: "fcfs_execute (fcfs_admit thirds_store [0, 1, 2]) = Inr y"
    "history_waiting_ts y = map Some [0, 0, 1]"
    "calc_avg_waiting_t y = Inr (PyFloat False (6004799503160661 / 18014398509481984))"
    "history y = [0, 1, 2]"
    by (cases "fcfs_execute (fcfs_admit thirds_store [0, 1, 2])") (auto simp: outcome_def)
  from calc_avg_contract[of y _ "[0, 0, 1]"] y
  have b: "nearest_binary64 (1 / 3)
             (float_value (PyFloat False (6004799503160661 / 18014398509481984)))"
    by (simp split: if_splits)
  have "outcome history_turnaround_ts (fcfs_execute (fcfs_admit huge_store [0, 1]))
          = Inr [Some (2 ^ 1025), Some (2 ^ 1025 + 1)]"
    and "outcome history (fcfs_execute (fcfs_admit huge_store [0, 1])) = Inr [0, 1]"
    by code_simp+
  then obtain z where z: "fcfs_execute (fcfs_admit huge_store [0, 1]) = Inr z"
    "history_turnaround_ts z = map Some [2 ^ 1025, 2 ^ 1025 + 1]" "history z = [0, 1]"
    by (cases "fcfs_execute (fcfs_admit huge_store [0, 1])") (auto simp: outcome_def)
  from calc_avg_contract[of z _ _ _ "[2 ^ 1025, 2 ^ 1025 + 1]"] z
  have c: "calc_avg_turnaround_t z = Inl OverflowError"
    by (simp split: if_splits)
  have m: "find (\<lambda>p. waiting_t (store metrics_missing_state p) = None)
             (history metrics_missing_state) = Some 1"
    "find (\<lambda>p. turnaround_t (store metrics_missing_state p) = None)
             (history metrics_missing_state) = Some 1"
    "p_id (store metrics_missing_state 1) = ''P1''"
    by (simp_all add: metrics_missing_state_def fcfs_main_store_def Process_init_def)
  from calc_avg_contract[of metrics_missing_state 1 _ 1] m
  have d: "calc_avg_waiting_t metrics_missing_state = Inl (MissingWaitingTimeError ''P1'')"
    "calc_avg_turnaround_t metrics_missing_state = Inl (MissingTurnaroundTimeError ''P1'')"
    by simp_all
  from calc_avg_contract[of "Scheduler_init fcfs_main_store"]
  have e: "calc_avg_waiting_t (Scheduler_init fcfs_main_store) = Inl ZeroDivisionError"
    "calc_avg_turnaround_t (Scheduler_init fcfs_main_store) = Inl ZeroDivisionError"
    by (simp_all add: Scheduler_init_def)
  from x a y b z c m(1) d e show ?thesis by (simp add: float_value_def)
qed

end
